theory Spec2Isabelle
  imports Main "HOL-Library.Word"
begin

unbundle bit_operations_syntax

section \<open>Python values shared by the modules\<close>

text \<open>
  The exceptions the modelled functions can raise. A function that can raise returns
  \<open>py_error + 'a\<close>, with \<open>Inl\<close> carrying the exception.
\<close>

datatype py_error =
    KeyError
  | TypeError
  | ValueError
  | AssertionError
  | IndexError
  | AttributeError
  | StopIteration
  | InvalidArgumentError

text \<open>
  A Python \<open>dict\<close> keeps its keys in insertion order; assigning to a key that is
  already present keeps the key's position and replaces the value. It is modelled as an
  association list without repeated keys.
\<close>

fun dict_get :: "('k \<times> 'v) list \<Rightarrow> 'k \<Rightarrow> 'v option" where
  "dict_get [] k = None"
| "dict_get ((k', v) # kvs) k = (if k' = k then Some v else dict_get kvs k)"

fun dict_set :: "('k \<times> 'v) list \<Rightarrow> 'k \<Rightarrow> 'v \<Rightarrow> ('k \<times> 'v) list" where
  "dict_set [] k v = [(k, v)]"
| "dict_set ((k', v') # kvs) k v =
     (if k' = k then (k, v) # kvs else (k', v') # dict_set kvs k v)"

definition dict_item :: "('k \<times> 'v) list \<Rightarrow> 'k \<Rightarrow> py_error + 'v" where
  \<comment> \<open>\<open>d[k]\<close>: raises KeyError when the key is missing.\<close>
  "dict_item d k = (case dict_get d k of None \<Rightarrow> Inl KeyError | Some v \<Rightarrow> Inr v)"

definition dict_setdefault :: "('k \<times> 'v) list \<Rightarrow> 'k \<Rightarrow> 'v \<Rightarrow> 'v \<times> ('k \<times> 'v) list" where
  \<comment> \<open>\<open>d.setdefault(k, v)\<close>: the stored value when the key is present, otherwise
      stores \<open>v\<close> under the new key and returns it.\<close>
  "dict_setdefault d k v =
     (case dict_get d k of Some v' \<Rightarrow> (v', d) | None \<Rightarrow> (v, dict_set d k v))"

fun items_of :: "('k \<times> 'v) list \<Rightarrow> 'k list \<Rightarrow> py_error + 'v list" where
  \<comment> \<open>The comprehension \<open>[d[k] for k in ks]\<close>: the first missing key raises KeyError.\<close>
  "items_of d [] = Inr []"
| "items_of d (k # ks) =
     (case dict_item d k of
        Inl e \<Rightarrow> Inl e
      | Inr v \<Rightarrow> (case items_of d ks of Inl e \<Rightarrow> Inl e | Inr vs \<Rightarrow> Inr (v # vs)))"

section \<open>multihost\_dataloading: slices and index tuples\<close>

text \<open>
  A \<open>slice\<close> object as this module uses it: \<open>start\<close> and \<open>stop\<close> are integers
  or \<open>None\<close> (the step is never read and never set). The index of a device is a
  tuple of slices, one for each array dimension; dimension \<open>data_dim = 0\<close> is the
  batch dimension.
\<close>

datatype py_slice = Slice (start: "int option") (stop: "int option")

type_synonym index = "py_slice list"

type_synonym bounds = "int option \<times> int option"

definition data_dim :: nat where
  "data_dim = 0"

subsection \<open>get\_unique\_shards\<close>

text \<open>
  The function keys each host by \<open>hash(tuple(set(hashable_indices)))\<close>, where
  \<open>hashable_indices\<close> is the list, in device order, of each device's index with
  every slice replaced by the pair \<open>(s.start, s.stop)\<close>. The built-ins \<open>set\<close>,
  \<open>tuple\<close> and \<open>hash\<close> belong to the interpreter, so their composition is the
  parameter \<open>H\<close> of the model: \<open>H xs\<close> is the hash of the tuple that lists the
  elements of the set built from \<open>xs\<close>.
\<close>

definition hashable_indices :: "index list \<Rightarrow> bounds list list" where
  "hashable_indices host_indices = map (map (\<lambda>s. (start s, stop s))) host_indices"

fun get_unique_shards_loop ::
  "(bounds list list \<Rightarrow> int) \<Rightarrow> ('d \<times> index) list \<Rightarrow> (int \<times> 'd list) list \<Rightarrow>
   (int \<times> int) list \<times> (int \<times> int) list \<Rightarrow>
   py_error + ((int \<times> int) list \<times> (int \<times> int) list)" where
  "get_unique_shards_loop H device_to_index [] st = Inr st"
| "get_unique_shards_loop H device_to_index ((host_id, host_devices) # rest)
     (host_to_dataset_shard, dataset_shard_hash_to_index) =
     (case items_of device_to_index host_devices of
        Inl e \<Rightarrow> Inl e
      | Inr host_indices \<Rightarrow>
          let pipeline_hash = H (hashable_indices host_indices);
              (shard, hash_to_index') =
                 dict_setdefault dataset_shard_hash_to_index pipeline_hash
                   (int (length dataset_shard_hash_to_index))
          in get_unique_shards_loop H device_to_index rest
               (dict_set host_to_dataset_shard host_id shard, hash_to_index'))"

definition get_unique_shards ::
  "(bounds list list \<Rightarrow> int) \<Rightarrow> (int \<times> 'd list) list \<Rightarrow> ('d \<times> index) list \<Rightarrow>
   py_error + ((int \<times> int) list \<times> int)" where
  "get_unique_shards H host_to_devices device_to_index =
     (case get_unique_shards_loop H device_to_index host_to_devices ([], []) of
        Inl e \<Rightarrow> Inl e
      | Inr (host_to_dataset_shard, dataset_shard_hash_to_index) \<Rightarrow>
          Inr (host_to_dataset_shard, int (length dataset_shard_hash_to_index)))"

subsection \<open>The interpreter's \<open>hash\<close>, \<open>set\<close> and \<open>tuple\<close> (CPython, 64 bit)\<close>

text \<open>
  An instance of the parameter \<open>H\<close>, used to run the model on concrete inputs. It
  follows CPython 3.8 to 3.11 on a 64-bit platform: an integer hashes to its residue
  modulo \<open>2^61 - 1\<close> (with the sign of the integer, and -2 in place of -1); a tuple
  hashes by the xxHash-style loop over the hashes of its items; \<open>None\<close> hashes to a
  value fixed for the process, the parameter \<open>none_hash\<close>.
\<close>

definition hash_int :: "int \<Rightarrow> int" where
  "hash_int n =
     (let m = \<bar>n\<bar> mod (2 ^ 61 - 1);
          h = (if n < 0 then - m else m)
      in if h = - 1 then - 2 else h)"

definition XXPRIME_1 :: "64 word" where
  "XXPRIME_1 = 11400714785074694791"

definition XXPRIME_2 :: "64 word" where
  "XXPRIME_2 = 14029467366897019727"

definition XXPRIME_5 :: "64 word" where
  "XXPRIME_5 = 2870177450012600261"

definition XXROTATE :: "64 word \<Rightarrow> 64 word" where
  "XXROTATE x = (push_bit 31 x) OR (drop_bit 33 x)"

fun tuplehash_loop :: "64 word \<Rightarrow> 64 word list \<Rightarrow> 64 word" where
  "tuplehash_loop acc [] = acc"
| "tuplehash_loop acc (lane # lanes) =
     tuplehash_loop (XXROTATE (acc + lane * XXPRIME_2) * XXPRIME_1) lanes"

definition tuplehash :: "int list \<Rightarrow> int" where
  \<comment> \<open>The argument lists the hashes of the items.\<close>
  "tuplehash item_hashes =
     (let acc = tuplehash_loop XXPRIME_5 (map word_of_int item_hashes)
                + (word_of_nat (length item_hashes) XOR (XXPRIME_5 XOR 3527539))
      in if acc = - 1 then 1546275796 else sint acc)"

definition hash_opt :: "int \<Rightarrow> int option \<Rightarrow> int" where
  "hash_opt none_hash v = (case v of None \<Rightarrow> none_hash | Some n \<Rightarrow> hash_int n)"

definition hash_bounds :: "int \<Rightarrow> bounds \<Rightarrow> int" where
  "hash_bounds none_hash b = tuplehash [hash_opt none_hash (fst b), hash_opt none_hash (snd b)]"

definition hash_index :: "int \<Rightarrow> bounds list \<Rightarrow> int" where
  "hash_index none_hash idx = tuplehash (map (hash_bounds none_hash) idx)"

text \<open>
  A CPython set is an open-addressing table of entries (key with its hash); its size is a
  power of two, at least 8. A key is looked up from slot \<open>hash & mask\<close>: up to
  \<open>LINEAR_PROBES = 9\<close> following slots are tried when they lie inside the table, then
  the slot is recomputed as \<open>(i * 5 + 1 + perturb) & mask\<close> with \<open>perturb\<close> shifted
  right by 5. The table is rebuilt four times larger than its number of entries once
  \<open>fill * 5 \<ge> mask * 3\<close>. Iteration lists the occupied slots in table order, which is
  the order of \<open>tuple(set(xs))\<close>. Nothing is ever removed here, so there are no dummy
  entries. The probe loop is bounded by a fuel that the load factor never exhausts;
  \<open>None\<close> stands for running out of it.
\<close>

type_synonym 'a set_table = "('a \<times> int) option list"

fun set_linear_probe :: "'a set_table \<Rightarrow> 'a \<Rightarrow> int \<Rightarrow> nat \<Rightarrow> nat \<Rightarrow> nat option" where
  "set_linear_probe table key h i probes =
     (if table ! i = None \<or> table ! i = Some (key, h) then Some i
      else (case probes of 0 \<Rightarrow> None
            | Suc p \<Rightarrow> set_linear_probe table key h (Suc i) p))"

fun set_lookkey ::
  "nat \<Rightarrow> 'a set_table \<Rightarrow> 'a \<Rightarrow> int \<Rightarrow> nat \<Rightarrow> 64 word \<Rightarrow> nat option" where
  "set_lookkey 0 table key h i perturb = None"
| "set_lookkey (Suc fuel) table key h i perturb =
     (let mask = length table - 1 in
      case set_linear_probe table key h i (if i + 9 \<le> mask then 9 else 0) of
        Some slot \<Rightarrow> Some slot
      | None \<Rightarrow>
          let perturb' = drop_bit 5 perturb;
              i' = unat ((word_of_nat i * 5 + 1 + perturb') AND word_of_nat mask)
          in set_lookkey fuel table key h i' perturb')"

definition set_find_slot :: "'a set_table \<Rightarrow> 'a \<Rightarrow> int \<Rightarrow> nat option" where
  "set_find_slot table key h =
     set_lookkey (14 + length table) table key h
       (unat ((word_of_int h :: 64 word) AND word_of_nat (length table - 1))) (word_of_int h)"

function set_new_size :: "nat \<Rightarrow> nat \<Rightarrow> nat" where
  "set_new_size newsize minused =
     (if 0 < newsize \<and> newsize \<le> minused then set_new_size (2 * newsize) minused
      else newsize)"
  by pat_completeness auto
termination
  by (relation "measure (\<lambda>(newsize, minused). Suc minused - newsize)") auto

declare set_new_size.simps [simp del]

fun set_insert_clean :: "'a set_table \<Rightarrow> ('a \<times> int) option list \<Rightarrow> 'a set_table option" where
  "set_insert_clean table [] = Some table"
| "set_insert_clean table (None # entries) = set_insert_clean table entries"
| "set_insert_clean table (Some (key, h) # entries) =
     (case set_find_slot table key h of
        None \<Rightarrow> None
      | Some slot \<Rightarrow> set_insert_clean (table[slot := Some (key, h)]) entries)"

definition set_table_resize :: "'a set_table \<Rightarrow> nat \<Rightarrow> 'a set_table option" where
  "set_table_resize table minused =
     set_insert_clean (replicate (set_new_size 8 minused) None) table"

definition set_add_entry :: "'a set_table \<Rightarrow> 'a \<Rightarrow> int \<Rightarrow> 'a set_table option" where
  "set_add_entry table key h =
     (case set_find_slot table key h of
        None \<Rightarrow> None
      | Some slot \<Rightarrow>
          if table ! slot \<noteq> None then Some table
          else
            let table' = table[slot := Some (key, h)];
                fill = length (filter (\<lambda>e. e \<noteq> None) table')
            in if fill * 5 < (length table - 1) * 3 then Some table'
               else set_table_resize table' (if fill > 50000 then fill * 2 else fill * 4))"

fun set_update :: "('a \<Rightarrow> int) \<Rightarrow> 'a set_table \<Rightarrow> 'a list \<Rightarrow> 'a set_table option" where
  "set_update hash_fn table [] = Some table"
| "set_update hash_fn table (key # keys) =
     (case set_add_entry table key (hash_fn key) of
        None \<Rightarrow> None
      | Some table' \<Rightarrow> set_update hash_fn table' keys)"

definition tuple_of_set :: "('a \<Rightarrow> int) \<Rightarrow> 'a list \<Rightarrow> 'a list option" where
  \<comment> \<open>\<open>tuple(set(xs))\<close>\<close>
  "tuple_of_set hash_fn xs =
     (case set_update hash_fn (replicate 8 None) xs of
        None \<Rightarrow> None
      | Some table \<Rightarrow> Some (map fst (List.map_filter id table)))"

definition cpython_H :: "int \<Rightarrow> bounds list list \<Rightarrow> int" where
  \<comment> \<open>\<open>hash(tuple(set(xs)))\<close>; 0 only stands in for a probe that ran out of fuel.\<close>
  "cpython_H none_hash xs =
     (case tuple_of_set (hash_index none_hash) xs of
        None \<Rightarrow> 0
      | Some t \<Rightarrow> tuplehash (map (hash_index none_hash) t))"

subsection \<open>convert\_global\_indices\_to\_local\_indices\<close>

text \<open>
  \<open>jax.local_devices()\<close> is the parameter \<open>local_devices\<close>. Reading
  \<open>s[data_dim]\<close> of an empty index tuple raises IndexError, and the subtraction
  \<open>idx[1] - idx[0]\<close> raises TypeError when a bound is \<open>None\<close>.
\<close>

fun data_indices :: "index list \<Rightarrow> py_error + bounds list" where
  \<comment> \<open>\<open>[(s[data_dim].start, s[data_dim].stop) for s in local_indices]\<close>\<close>
  "data_indices [] = Inr []"
| "data_indices (s # local_indices) =
     (if length s \<le> data_dim then Inl IndexError
      else (case data_indices local_indices of
              Inl e \<Rightarrow> Inl e
            | Inr rest \<Rightarrow> Inr ((start (s ! data_dim), stop (s ! data_dim)) # rest)))"

fun unique_slice_sizes :: "(bounds \<times> int) list \<Rightarrow> bounds list \<Rightarrow> py_error + (bounds \<times> int) list" where
  \<comment> \<open>\<open>{idx: idx[1] - idx[0] for idx in data_indices}\<close>, from the dictionary built so far\<close>
  "unique_slice_sizes d [] = Inr d"
| "unique_slice_sizes d (idx # rest) =
     (case idx of
        (Some a, Some b) \<Rightarrow> unique_slice_sizes (dict_set d idx (b - a)) rest
      | _ \<Rightarrow> Inl TypeError)"

fun assign_local_slices ::
  "int \<Rightarrow> (bounds \<times> py_slice) list \<Rightarrow> (bounds \<times> int) list \<Rightarrow> (bounds \<times> py_slice) list \<times> int" where
  \<comment> \<open>the loop over \<open>unique_slice_sizes.items()\<close>\<close>
  "assign_local_slices total_data_to_load device_index_hash_to_local_index [] =
     (device_index_hash_to_local_index, total_data_to_load)"
| "assign_local_slices total_data_to_load device_index_hash_to_local_index ((idx, sz) # rest) =
     assign_local_slices (total_data_to_load + sz)
       (dict_set device_index_hash_to_local_index idx
          (Slice (Some total_data_to_load) (Some (total_data_to_load + sz))))
       rest"

fun assign_devices ::
  "(bounds \<times> py_slice) list \<Rightarrow> ('d \<times> py_slice) list \<Rightarrow> ('d \<times> bounds) list \<Rightarrow>
   py_error + ('d \<times> py_slice) list" where
  \<comment> \<open>the loop over \<open>zip(jax.local_devices(), data_indices)\<close>\<close>
  "assign_devices local_index device_to_local_indices [] = Inr device_to_local_indices"
| "assign_devices local_index device_to_local_indices ((device, data_index) # rest) =
     (case dict_item local_index data_index of
        Inl e \<Rightarrow> Inl e
      | Inr sl \<Rightarrow> assign_devices local_index (dict_set device_to_local_indices device sl) rest)"

definition convert_global_indices_to_local_indices ::
  "'d list \<Rightarrow> ('d \<times> index) list \<Rightarrow> py_error + (('d \<times> py_slice) list \<times> int)" where
  "convert_global_indices_to_local_indices local_devices device_to_index =
     (case items_of device_to_index local_devices of
        Inl e \<Rightarrow> Inl e
      | Inr local_indices \<Rightarrow>
     (case data_indices local_indices of
        Inl e \<Rightarrow> Inl e
      | Inr data_idx \<Rightarrow>
     (case unique_slice_sizes [] data_idx of
        Inl e \<Rightarrow> Inl e
      | Inr sizes \<Rightarrow>
          let (local_index, total_data_to_load) = assign_local_slices 0 [] sizes
          in (case assign_devices local_index [] (zip local_devices data_idx) of
                Inl e \<Rightarrow> Inl e
              | Inr device_to_local_indices \<Rightarrow>
                  Inr (device_to_local_indices, total_data_to_load)))))"

subsection \<open>Pytrees, devices and the dataset operations\<close>

text \<open>
  A pytree is its tree structure together with the list of its leaves in flattening
  order; the structure is an abstract value compared by equality. \<open>jax.tree_map\<close>
  over several trees is modelled for trees of one structure: it raises ValueError
  otherwise.
\<close>

datatype ('s, 'a) pytree = Pytree (tree_structure: 's) (tree_leaves: "'a list")

fun sequence_results :: "(py_error + 'a) list \<Rightarrow> py_error + 'a list" where
  "sequence_results [] = Inr []"
| "sequence_results (r # rs) =
     (case r of
        Inl e \<Rightarrow> Inl e
      | Inr v \<Rightarrow> (case sequence_results rs of Inl e \<Rightarrow> Inl e | Inr vs \<Rightarrow> Inr (v # vs)))"

definition tree_map2 ::
  "('a \<Rightarrow> 'b \<Rightarrow> 'c) \<Rightarrow> ('s, 'a) pytree \<Rightarrow> ('s, 'b) pytree \<Rightarrow> py_error + ('s, 'c) pytree" where
  "tree_map2 f t u =
     (if tree_structure t = tree_structure u \<and> length (tree_leaves t) = length (tree_leaves u)
      then Inr (Pytree (tree_structure t) (map2 f (tree_leaves t) (tree_leaves u)))
      else Inl ValueError)"

definition tree_map3 ::
  "('a \<Rightarrow> 'b \<Rightarrow> 'c \<Rightarrow> py_error + 'r) \<Rightarrow> ('s, 'a) pytree \<Rightarrow> ('s, 'b) pytree \<Rightarrow>
   ('s, 'c) pytree \<Rightarrow> py_error + ('s, 'r) pytree" where
  "tree_map3 f t u w =
     (if tree_structure t = tree_structure u \<and> tree_structure t = tree_structure w \<and>
         length (tree_leaves t) = length (tree_leaves u) \<and>
         length (tree_leaves t) = length (tree_leaves w)
      then (case sequence_results
                   (map (\<lambda>(a, b, c). f a b c)
                      (zip (tree_leaves t) (zip (tree_leaves u) (tree_leaves w)))) of
              Inl e \<Rightarrow> Inl e
            | Inr rs \<Rightarrow> Inr (Pytree (tree_structure t) rs))
      else Inl ValueError)"

text \<open>
  What the pipeline reads from the JAX runtime: \<open>jax.devices()\<close>,
  \<open>jax.local_devices()\<close> and \<open>jax.process_index()\<close>. The function
  \<open>gda_lib.get_shard_indices(shape, global_mesh, axes)\<close> is a parameter of the pipeline
  (the mesh is fixed with it).
\<close>

datatype device = Device (device_id: int) (host_id: int)

record jax_env =
  jax_devices :: "device list"
  jax_local_devices :: "device list"
  jax_process_index :: int

text \<open>
  A finite \<open>tf.data\<close> dataset is the list of its elements. \<open>shard(n, i)\<close> keeps the
  elements at the positions congruent to \<open>i\<close> modulo \<open>n\<close>; \<open>batch(n)\<close>, called
  without \<open>drop_remainder\<close>, cuts the dataset into consecutive groups of \<open>n\<close>
  elements, the last group holding the remainder when there is one, and stacks each group
  leaf by leaf; \<open>repeat()\<close> iterates the dataset again and again. A dataset that may be
  infinite is the function giving its \<open>k\<close>-th element, \<open>None\<close> once it is exhausted.
\<close>

type_synonym 'b stream = "nat \<Rightarrow> 'b option"

fun tf_shard_from :: "nat \<Rightarrow> nat \<Rightarrow> nat \<Rightarrow> 'e list \<Rightarrow> 'e list" where
  "tf_shard_from pos n i [] = []"
| "tf_shard_from pos n i (x # xs) =
     (if pos mod n = i then x # tf_shard_from (Suc pos) n i xs
      else tf_shard_from (Suc pos) n i xs)"

definition tf_shard :: "int \<Rightarrow> int \<Rightarrow> 'e list \<Rightarrow> py_error + 'e list" where
  "tf_shard num_shards index dataset =
     (if num_shards < 1 \<or> index < 0 \<or> num_shards \<le> index then Inl InvalidArgumentError
      else Inr (tf_shard_from 0 (nat num_shards) (nat index) dataset))"

function chunks :: "nat \<Rightarrow> 'e list \<Rightarrow> 'e list list" where
  "chunks n xs = (if n = 0 \<or> xs = [] then [] else take n xs # chunks n (drop n xs))"
  by pat_completeness auto
termination
  by (relation "measure (\<lambda>(n, xs). length xs)") auto

declare chunks.simps [simp del]

definition stack :: "('s, 'a) pytree list \<Rightarrow> ('s, 'a list) pytree" where
  \<comment> \<open>the elements of one group, stacked leaf by leaf along a new first dimension\<close>
  "stack elems =
     Pytree (tree_structure (hd elems))
       (map (\<lambda>i. map (\<lambda>e. tree_leaves e ! i) elems) [0..<length (tree_leaves (hd elems))])"

definition tf_batch :: "int \<Rightarrow> ('s, 'a) pytree list \<Rightarrow> py_error + ('s, 'a list) pytree list" where
  "tf_batch batch_size dataset =
     (if batch_size \<le> 0 then Inl InvalidArgumentError
      else Inr (map stack (chunks (nat batch_size) dataset)))"

definition tf_repeat :: "'b list \<Rightarrow> 'b stream" where
  "tf_repeat dataset k =
     (if dataset = [] then None else Some (dataset ! (k mod length dataset)))"

text \<open>
  Slicing the first dimension of an array (a list of rows) with a slice object, as Python
  and NumPy do: a missing bound is the end of the array on its side, a negative bound
  counts from the end, and bounds are clipped to the array.
\<close>

definition slice_bound :: "int \<Rightarrow> int \<Rightarrow> int option \<Rightarrow> int" where
  "slice_bound n dflt b =
     (case b of
        None \<Rightarrow> dflt
      | Some i \<Rightarrow> if i < 0 then max 0 (i + n) else min i n)"

definition getitem_slice :: "'a list \<Rightarrow> py_slice \<Rightarrow> 'a list" where
  "getitem_slice xs s =
     (let n = int (length xs);
          lo = slice_bound n 0 (start s);
          hi = slice_bound n n (stop s)
      in take (nat (hi - lo)) (drop (nat lo) xs))"

subsection \<open>check\_inputs\<close>

text \<open>
  The first assertion sits in a \<open>try\<close> whose handler prints the message and goes on;
  the result records whether the message was printed. The two later assertions compare
  the first dimensions of the leaves of \<open>global_data_shape\<close>.
\<close>

fun batch_dims_of :: "int list list \<Rightarrow> py_error + int list" where
  \<comment> \<open>\<open>[s[0] for s in shapes]\<close>\<close>
  "batch_dims_of [] = Inr []"
| "batch_dims_of (s # shapes) =
     (case s of
        [] \<Rightarrow> Inl IndexError
      | b # _ \<Rightarrow> (case batch_dims_of shapes of Inl e \<Rightarrow> Inl e | Inr bs \<Rightarrow> Inr (b # bs)))"

definition check_inputs ::
  "('s, 'a) pytree list \<Rightarrow> ('s, int list) pytree \<Rightarrow> ('s, 'ax) pytree \<Rightarrow> py_error + (bool \<times> int)" where
  "check_inputs dataset global_data_shape data_axes =
     (case dataset of
        [] \<Rightarrow> Inl StopIteration
      | x # _ \<Rightarrow>
          let dataset_structure = tree_structure x;
              global_data_shape_structure = tree_structure global_data_shape;
              data_axes_structure = tree_structure data_axes;
              printed = \<not> (dataset_structure = global_data_shape_structure \<and>
                            global_data_shape_structure = data_axes_structure);
              shapes = tree_leaves global_data_shape
          in (case batch_dims_of shapes of
                Inl e \<Rightarrow> Inl e
              | Inr batch_dims \<Rightarrow>
                  if \<not> list_all (\<lambda>b. b = batch_dims ! 0) batch_dims then Inl AssertionError
                  else if \<not> list_all (\<lambda>b. b ! 0 = shapes ! 0 ! 0) shapes then Inl AssertionError
                  else (case batch_dims of
                          [] \<Rightarrow> Inl IndexError
                        | batch_dim # _ \<Rightarrow> Inr (printed, batch_dim))))"

subsection \<open>get\_next\_per\_host\<close>

text \<open>
  The array built by \<open>jax.make_array_from_single_device_arrays\<close> is recorded as its
  arguments: the global shape, the partition spec and the buffers, one for each local
  device in the order of \<open>jax.local_devices()\<close>.
\<close>

datatype ('a, 'ax) global_array =
  GlobalArray (array_shape: "int list") (array_axes: 'ax) (device_buffers: "(device \<times> 'a list) list")

fun form_buffers ::
  "(device \<times> py_slice) list \<Rightarrow> 'a list \<Rightarrow> device list \<Rightarrow> py_error + (device \<times> 'a list) list" where
  \<comment> \<open>the loop of \<open>form_gda\<close> over the local devices\<close>
  "form_buffers host_local_indices element [] = Inr []"
| "form_buffers host_local_indices element (device # rest) =
     (case dict_item host_local_indices device of
        Inl e \<Rightarrow> Inl e
      | Inr local_indices \<Rightarrow>
          (case form_buffers host_local_indices element rest of
             Inl e \<Rightarrow> Inl e
           | Inr buffers \<Rightarrow> Inr ((device, getitem_slice element local_indices) # buffers)))"

definition form_gda ::
  "jax_env \<Rightarrow> (device \<times> py_slice) list \<Rightarrow> 'a list \<Rightarrow> int list \<Rightarrow> 'ax \<Rightarrow>
   py_error + ('a, 'ax) global_array" where
  "form_gda env host_local_indices element shape axes =
     (case form_buffers host_local_indices element (jax_local_devices env) of
        Inl e \<Rightarrow> Inl e
      | Inr buffers \<Rightarrow> Inr (GlobalArray shape axes buffers))"

definition get_next_per_host ::
  "('s, 'a list) pytree stream \<Rightarrow> (device \<times> py_slice) list \<Rightarrow> ('s, int list) pytree \<Rightarrow>
   jax_env \<Rightarrow> ('s, 'ax) pytree \<Rightarrow> (py_error + ('s, ('a, 'ax) global_array) pytree) stream" where
  \<comment> \<open>the generator: its \<open>k\<close>-th value, computed when it is pulled\<close>
  "get_next_per_host sharded_dataset host_local_indices global_data_shape env data_axes k =
     (case sharded_dataset k of
        None \<Rightarrow> None
      | Some x \<Rightarrow>
          Some (tree_map3 (form_gda env host_local_indices) x global_data_shape data_axes))"

subsection \<open>get\_per\_host\_data\_pipeline\<close>

fun group_by_host :: "(int \<times> device list) list \<Rightarrow> device list \<Rightarrow> (int \<times> device list) list" where
  \<comment> \<open>\<open>for d in jax.devices(): host_to_devices[d.host_id].append(d)\<close> on a
      \<open>defaultdict(list)\<close>\<close>
  "group_by_host host_to_devices [] = host_to_devices"
| "group_by_host host_to_devices (d # ds) =
     group_by_host
       (dict_set host_to_devices (host_id d)
          ((case dict_get host_to_devices (host_id d) of None \<Rightarrow> [] | Some l \<Rightarrow> l) @ [d]))
       ds"

record pipeline_setup =
  host_to_dataset_shard :: "(int \<times> int) list"
  num_shards :: int
  host_local_indices :: "(device \<times> py_slice) list"
  total_data_to_load :: int

definition setup_pipeline ::
  "(bounds list list \<Rightarrow> int) \<Rightarrow> jax_env \<Rightarrow> (int list \<Rightarrow> 'ax \<Rightarrow> (device \<times> index) list) \<Rightarrow>
   ('s, 'a) pytree list \<Rightarrow> ('s, int list) pytree \<Rightarrow> ('s, 'ax) pytree \<Rightarrow>
   py_error + pipeline_setup" where
  \<comment> \<open>the body of \<open>get_per_host_data_pipeline\<close> up to the call of
      \<open>convert_global_indices_to_local_indices\<close>\<close>
  "setup_pipeline H env get_shard_indices dataset global_data_shape data_axes =
     (case check_inputs dataset global_data_shape data_axes of
        Inl e \<Rightarrow> Inl e
      | Inr _ \<Rightarrow>
     (case tree_map2 get_shard_indices global_data_shape data_axes of
        Inl e \<Rightarrow> Inl e
      | Inr device_to_index \<Rightarrow>
          let host_to_devices = group_by_host [] (jax_devices env)
          in (case tree_leaves device_to_index of
                [] \<Rightarrow> Inl IndexError
              | representative_device_to_index # _ \<Rightarrow>
     (case get_unique_shards H host_to_devices representative_device_to_index of
        Inl e \<Rightarrow> Inl e
      | Inr (h2s, n) \<Rightarrow>
     (case convert_global_indices_to_local_indices (jax_local_devices env)
             representative_device_to_index of
        Inl e \<Rightarrow> Inl e
      | Inr (local_idx, tot) \<Rightarrow>
          Inr \<lparr>host_to_dataset_shard = h2s, num_shards = n,
               host_local_indices = local_idx, total_data_to_load = tot\<rparr>)))))"

definition make_sharded_dataset ::
  "pipeline_setup \<Rightarrow> jax_env \<Rightarrow> ('s, 'a) pytree list \<Rightarrow>
   (('s, 'a) pytree list \<Rightarrow> int \<Rightarrow> py_error + ('s, 'a list) pytree stream) option \<Rightarrow>
   py_error + ('s, 'a list) pytree stream" where
  \<comment> \<open>from the lookup of \<open>local_data_shard_index\<close> to \<open>sharded_dataset\<close>\<close>
  "make_sharded_dataset cfg env dataset batching_fn =
     (case dict_item (host_to_dataset_shard cfg) (jax_process_index env) of
        Inl e \<Rightarrow> Inl e
      | Inr local_data_shard_index \<Rightarrow>
     (case tf_shard (num_shards cfg) local_data_shard_index dataset of
        Inl e \<Rightarrow> Inl e
      | Inr shard \<Rightarrow>
          (case batching_fn of
             Some fn \<Rightarrow> fn shard (total_data_to_load cfg)
           | None \<Rightarrow>
               (case tf_batch (total_data_to_load cfg) shard of
                  Inl e \<Rightarrow> Inl e
                | Inr batches \<Rightarrow> Inr (tf_repeat batches)))))"

definition get_per_host_data_pipeline ::
  "(bounds list list \<Rightarrow> int) \<Rightarrow> jax_env \<Rightarrow> (int list \<Rightarrow> 'ax \<Rightarrow> (device \<times> index) list) \<Rightarrow>
   ('s, 'a) pytree list \<Rightarrow> ('s, int list) pytree \<Rightarrow> ('s, 'ax) pytree \<Rightarrow>
   (('s, 'a) pytree list \<Rightarrow> int \<Rightarrow> py_error + ('s, 'a list) pytree stream) option \<Rightarrow>
   py_error + (py_error + ('s, ('a, 'ax) global_array) pytree) stream" where
  "get_per_host_data_pipeline H env get_shard_indices dataset global_data_shape data_axes
     batching_fn =
     (case setup_pipeline H env get_shard_indices dataset global_data_shape data_axes of
        Inl e \<Rightarrow> Inl e
      | Inr cfg \<Rightarrow>
          (case make_sharded_dataset cfg env dataset batching_fn of
             Inl e \<Rightarrow> Inl e
           | Inr sharded_dataset \<Rightarrow>
               Inr (get_next_per_host sharded_dataset (host_local_indices cfg)
                      global_data_shape env data_axes)))"

subsection \<open>A small cluster to run the pipeline on\<close>

text \<open>
  Two hosts with two devices each and a batch of 8 rows. With the data axis sharded
  (\<open>axes = True\<close>) device \<open>i\<close> owns the rows \<open>[2 i, 2 i + 2)\<close>; with a
  replicated leaf (\<open>axes = False\<close>) every device owns all rows. The second dimension
  is never split.
\<close>

definition scenario_devices :: "device list" where
  "scenario_devices = [Device 0 0, Device 1 0, Device 2 1, Device 3 1]"

definition scenario_env :: "int \<Rightarrow> jax_env" where
  "scenario_env p =
     \<lparr>jax_devices = scenario_devices,
      jax_local_devices = filter (\<lambda>d. host_id d = p) scenario_devices,
      jax_process_index = p\<rparr>"

definition scenario_shard_indices :: "int list \<Rightarrow> bool \<Rightarrow> (device \<times> index) list" where
  "scenario_shard_indices shape axes =
     map (\<lambda>d. (d, [if axes then Slice (Some (2 * device_id d)) (Some (2 * device_id d + 2))
                     else Slice (Some 0) (Some (shape ! 0)),
                     Slice (Some 0) (Some (shape ! 1))]))
       scenario_devices"

section \<open>Notions used to state the properties\<close>

text \<open>
  The position of the first occurrence of an element, the distinct elements of a list in
  the order of their first occurrence, and a list numbered from \<open>n\<close>.
\<close>

fun index_of :: "'a list \<Rightarrow> 'a \<Rightarrow> nat" where
  "index_of [] k = 0"
| "index_of (x # xs) k = (if x = k then 0 else Suc (index_of xs k))"

fun first_seen_from :: "'a list \<Rightarrow> 'a list \<Rightarrow> 'a list" where
  "first_seen_from seen [] = seen"
| "first_seen_from seen (k # ks) =
     first_seen_from (if k \<in> set seen then seen else seen @ [k]) ks"

definition first_seen :: "'a list \<Rightarrow> 'a list" where
  "first_seen ks = first_seen_from [] ks"

fun enum_from :: "nat \<Rightarrow> 'a list \<Rightarrow> ('a \<times> int) list" where
  "enum_from n [] = []"
| "enum_from n (k # ks) = (k, int n) # enum_from (Suc n) ks"

text \<open>The key under which \<open>get_unique_shards\<close> files a host: its pipeline hash.\<close>

definition host_key ::
  "(bounds list list \<Rightarrow> int) \<Rightarrow> ('d \<times> index) list \<Rightarrow> 'd list \<Rightarrow> py_error + int" where
  "host_key H device_to_index host_devices =
     (case items_of device_to_index host_devices of
        Inl e \<Rightarrow> Inl e
      | Inr host_indices \<Rightarrow> Inr (H (hashable_indices host_indices)))"

fun assign_ids :: "(int \<times> int) list \<Rightarrow> (int \<times> int) list \<Rightarrow> (int \<times> int) list" where
  "assign_ids [] d = d"
| "assign_ids ((h, i) # his) d = assign_ids his (dict_set d h i)"

text \<open>
  The batch-dimension range of a device as a pair of integers, its size, and the place the
  specification gives it in the host's buffer: the sizes of the distinct ranges first
  seen before it, added up.
\<close>

definition range_size :: "int \<times> int \<Rightarrow> int" where
  "range_size r = snd r - fst r"

definition bounds_of :: "int \<times> int \<Rightarrow> bounds" where
  "bounds_of r = (Some (fst r), Some (snd r))"

definition local_offset :: "(int \<times> int) list \<Rightarrow> int \<times> int \<Rightarrow> int" where
  "local_offset rs r =
     sum_list (map range_size (take (index_of (first_seen rs) r) (first_seen rs)))"

definition local_slice :: "(int \<times> int) list \<Rightarrow> int \<times> int \<Rightarrow> py_slice" where
  "local_slice rs r =
     Slice (Some (local_offset rs r)) (Some (local_offset rs r + range_size r))"

fun layout_from :: "int \<Rightarrow> (int \<times> int) list \<Rightarrow> (bounds \<times> py_slice) list" where
  "layout_from off [] = []"
| "layout_from off (r # rs) =
     (bounds_of r, Slice (Some off) (Some (off + range_size r)))
       # layout_from (off + range_size r) rs"

definition batch_range :: "('d \<times> index) list \<Rightarrow> 'd \<Rightarrow> bounds option" where
  "batch_range device_to_index dev =
     (case dict_get device_to_index dev of
        None \<Rightarrow> None
      | Some idx \<Rightarrow> if idx = [] then None else Some (start (idx ! 0), stop (idx ! 0)))"

definition slice_interval :: "py_slice \<Rightarrow> int set" where
  \<comment> \<open>the positions \<open>start \<le> p < stop\<close> of a slice with both bounds given\<close>
  "slice_interval s =
     (case (start s, stop s) of (Some a, Some b) \<Rightarrow> {a..<b} | _ \<Rightarrow> {})"

text \<open>
  Modelled from the spec: the repository has no function that puts the buffers of the
  devices back together (JAX does it), so the "unsharding" of the round-trip property
  follows the spec's words, "placing each device's data back at its global slice": the
  global batch starts with every row missing, and the buffer of each device is written
  row by row from the start of that device's batch-dimension range.
\<close>

fun place :: "'a option list \<Rightarrow> nat \<Rightarrow> 'a list \<Rightarrow> 'a option list" where
  "place g pos [] = g"
| "place g pos (x # xs) = place (g[pos := Some x]) (Suc pos) xs"

fun unshard :: "'a option list \<Rightarrow> ('d \<times> index) list \<Rightarrow> ('d \<times> 'a list) list \<Rightarrow> 'a option list" where
  "unshard g device_to_index [] = g"
| "unshard g device_to_index ((dev, buffer) # rest) =
     (case batch_range device_to_index dev of
        Some (Some a, _) \<Rightarrow> unshard (place g (nat a) buffer) device_to_index rest
      | _ \<Rightarrow> unshard g device_to_index rest)"

section \<open>pyconfig: the read-only configuration object\<close>

text \<open>
  The module keeps the loaded settings in the global \<open>_config\<close>, whose field
  \<open>keys\<close> is an ordered dictionary from names to values; \<open>_config\<close> is
  \<open>None\<close> until \<open>initialize\<close> has run. The public object \<open>config\<close> is an
  instance of \<open>HyperParameters\<close>, which has no fields of its own: the two methods
  below are all it does. Python calls \<open>__setattr__\<close> for every assignment
  \<open>config.attr = value\<close>, and \<open>__getattr__\<close> for every read that ordinary lookup
  does not resolve.
\<close>

record 'v pyconfig_state =
  config_keys :: "(string \<times> 'v) list option"

definition HyperParameters_getattr :: "'v pyconfig_state \<Rightarrow> string \<Rightarrow> py_error + 'v" where
  "HyperParameters_getattr st attr =
     (case config_keys st of
        None \<Rightarrow> Inl AttributeError
      | Some keys \<Rightarrow>
          if dict_get keys attr = None then Inl ValueError
          else dict_item keys attr)"

definition HyperParameters_setattr ::
  "'v pyconfig_state \<Rightarrow> string \<Rightarrow> 'v \<Rightarrow> (py_error + unit) \<times> 'v pyconfig_state" where
  "HyperParameters_setattr st attr val = (Inl ValueError, st)"

section \<open>Facts about dictionaries and first-seen numbering\<close>

lemma dict_get_None_iff: "dict_get d k = None \<longleftrightarrow> k \<notin> fst ` set d"
  by (induction d) (force split: if_splits)+

lemma dict_get_dict_set:
  "dict_get (dict_set d k v) k' = (if k' = k then Some v else dict_get d k')"
  by (induction d) auto

lemma dict_set_new: "k \<notin> fst ` set d \<Longrightarrow> dict_set d k v = d @ [(k, v)]"
  by (induction d) auto

lemma fst_set_dict_set: "fst ` set (dict_set d k v) = insert k (fst ` set d)"
  by (induction d) (force split: if_splits)+

lemma dict_get_distinct:
  "distinct (map fst d) \<Longrightarrow> (k, v) \<in> set d \<Longrightarrow> dict_get d k = Some v"
  by (induction d) (force split: if_splits)+

lemma index_of_less: "k \<in> set xs \<Longrightarrow> index_of xs k < length xs"
  by (induction xs) auto

lemma nth_index_of: "k \<in> set xs \<Longrightarrow> xs ! index_of xs k = k"
  by (induction xs) auto

lemma index_of_inj:
  "a \<in> set xs \<Longrightarrow> b \<in> set xs \<Longrightarrow> index_of xs a = index_of xs b \<Longrightarrow> a = b"
  by (metis nth_index_of)

lemma index_of_append: "k \<in> set xs \<Longrightarrow> index_of (xs @ ys) k = index_of xs k"
  by (induction xs) auto

lemma index_of_snoc_new: "k \<notin> set xs \<Longrightarrow> index_of (xs @ [k]) k = length xs"
  by (induction xs) auto


lemma first_seen_from_prefix: "\<exists>zs. first_seen_from seen ks = seen @ zs"
proof (induction ks arbitrary: seen)
  case Nil
  then show ?case by simp
next
  case (Cons k ks)
  from Cons.IH [of "if k \<in> set seen then seen else seen @ [k]"]
  show ?case by (auto split: if_splits)
qed

lemma index_of_first_seen_from:
  "k \<in> set seen \<Longrightarrow> index_of (first_seen_from seen ks) k = index_of seen k"
  using first_seen_from_prefix [of seen ks] by (auto simp: index_of_append)

lemma set_first_seen_from: "set (first_seen_from seen ks) = set seen \<union> set ks"
  by (induction ks arbitrary: seen) auto

lemma distinct_first_seen_from:
  "distinct seen \<Longrightarrow> distinct (first_seen_from seen ks)"
  by (induction ks arbitrary: seen) auto

lemma set_first_seen: "set (first_seen ks) = set ks"
  by (simp add: first_seen_def set_first_seen_from)

lemma distinct_first_seen: "distinct (first_seen ks)"
  by (simp add: first_seen_def distinct_first_seen_from)

lemma length_first_seen: "length (first_seen ks) = card (set ks)"
  using distinct_card [OF distinct_first_seen, of ks] by (simp add: set_first_seen)

lemma first_seen_from_append:
  "first_seen_from seen (ks @ ls) = first_seen_from (first_seen_from seen ks) ls"
  by (induction ks arbitrary: seen) auto


lemma length_enum_from: "length (enum_from n xs) = length xs"
  by (induction xs arbitrary: n) auto

lemma dict_get_enum_from:
  "dict_get (enum_from n seen) k =
     (if k \<in> set seen then Some (int (n + index_of seen k)) else None)"
  by (induction seen arbitrary: n) auto

lemma dict_set_enum_from:
  "k \<notin> set seen \<Longrightarrow>
   dict_set (enum_from n seen) k (int (n + length seen)) = enum_from n (seen @ [k])"
proof (induction seen arbitrary: n)
  case Nil
  then show ?case by simp
next
  case (Cons a seen)
  from Cons.prems have "k \<notin> set seen" and "a \<noteq> k" by auto
  from Cons.IH [OF this(1), of "Suc n"] this(2) show ?case by simp
qed

lemma dict_setdefault_enum:
  "dict_setdefault (enum_from 0 seen) k (int (length (enum_from 0 seen))) =
     (int (index_of (if k \<in> set seen then seen else seen @ [k]) k),
      enum_from 0 (if k \<in> set seen then seen else seen @ [k]))"
  using dict_set_enum_from [of k seen 0]
  by (simp add: dict_setdefault_def dict_get_enum_from length_enum_from index_of_snoc_new)

lemma assign_ids_distinct:
  "distinct (map fst his) \<Longrightarrow> fst ` set his \<inter> fst ` set d = {} \<Longrightarrow>
   assign_ids his d = d @ his"
proof (induction his arbitrary: d)
  case Nil
  then show ?case by simp
next
  case (Cons hi his)
  obtain h i where hi: "hi = (h, i)" by (cases hi)
  from Cons.prems hi have new: "h \<notin> fst ` set d" by auto
  from Cons.prems hi have "distinct (map fst his)"
    and "fst ` set his \<inter> fst ` set (d @ [(h, i)]) = {}"
    by (auto simp: rev_image_eqI)
  from Cons.IH [OF this] new hi show ?case
    by (simp add: dict_set_new)
qed

section \<open>Facts about get\_unique\_shards\<close>

lemma get_unique_shards_loop_char:
  "get_unique_shards_loop H d2i hs (h2s, enum_from 0 seen) = Inr (h2s', s2i') \<Longrightarrow>
   \<exists>ks. map (\<lambda>(h, ds). host_key H d2i ds) hs = map Inr ks \<and>
        s2i' = enum_from 0 (first_seen_from seen ks) \<and>
        h2s' = assign_ids
                 (zip (map fst hs) (map (\<lambda>x. int (index_of (first_seen_from seen ks) x)) ks))
                 h2s"
proof (induction hs arbitrary: h2s seen)
  case Nil
  then show ?case by simp
next
  case (Cons hd hs)
  obtain h ds where hd: "hd = (h, ds)" by (cases hd)
  from Cons.prems hd obtain his where his: "items_of d2i ds = Inr his"
    by (auto split: sum.splits)
  define k where "k = H (hashable_indices his)"
  define seen' where "seen' = (if k \<in> set seen then seen else seen @ [k])"
  have kin: "k \<in> set seen'" by (simp add: seen'_def)
  from Cons.prems hd his
  have "get_unique_shards_loop H d2i hs
          (dict_set h2s h (int (index_of seen' k)), enum_from 0 seen') = Inr (h2s', s2i')"
    unfolding seen'_def k_def
    by (simp only: get_unique_shards_loop.simps sum.case Let_def dict_setdefault_enum
          prod.case)
  from Cons.IH [OF this] obtain ks where
    ks: "map (\<lambda>(h, ds). host_key H d2i ds) hs = map Inr ks"
    and s2i': "s2i' = enum_from 0 (first_seen_from seen' ks)"
    and h2s': "h2s' = assign_ids
                 (zip (map fst hs) (map (\<lambda>x. int (index_of (first_seen_from seen' ks) x)) ks))
                 (dict_set h2s h (int (index_of seen' k)))"
    by blast
  have fs: "first_seen_from seen (k # ks) = first_seen_from seen' ks"
    by (simp add: seen'_def)
  have "map (\<lambda>(h, ds). host_key H d2i ds) (hd # hs) = map Inr (k # ks)"
    using ks hd his by (simp add: host_key_def k_def)
  moreover have "s2i' = enum_from 0 (first_seen_from seen (k # ks))"
    using s2i' fs by simp
  moreover have "h2s' = assign_ids
                   (zip (map fst (hd # hs))
                      (map (\<lambda>x. int (index_of (first_seen_from seen (k # ks)) x)) (k # ks)))
                   h2s"
    using h2s' hd kin
    by (simp only: fs list.map fst_conv zip_Cons_Cons assign_ids.simps
        index_of_first_seen_from)
  ultimately show ?case by blast
qed


lemma get_unique_shards_char:
  assumes "get_unique_shards H hs d2i = Inr (h2s, n)"
  shows "\<exists>ks. map (\<lambda>(h, ds). host_key H d2i ds) hs = map Inr ks \<and>
           n = int (length (first_seen ks)) \<and>
           h2s = assign_ids
                   (zip (map fst hs) (map (\<lambda>x. int (index_of (first_seen ks) x)) ks)) []"
proof -
  from assms obtain s2i where
    loop: "get_unique_shards_loop H d2i hs ([], enum_from 0 []) = Inr (h2s, s2i)"
    and n: "n = int (length s2i)"
    by (auto simp: get_unique_shards_def split: sum.splits)
  from get_unique_shards_loop_char [OF loop] n show ?thesis
    by (auto simp: first_seen_def length_enum_from)
qed


lemma get_unique_shards_distinct_hosts:
  assumes "get_unique_shards H hs d2i = Inr (h2s, n)" and "distinct (map fst hs)"
  shows "\<exists>ks. map (\<lambda>(h, ds). host_key H d2i ds) hs = map Inr ks \<and>
           n = int (length (first_seen ks)) \<and>
           h2s = zip (map fst hs) (map (\<lambda>x. int (index_of (first_seen ks) x)) ks)"
proof -
  from get_unique_shards_char [OF assms(1)] obtain ks where
    ks: "map (\<lambda>(h, ds). host_key H d2i ds) hs = map Inr ks"
    and n: "n = int (length (first_seen ks))"
    and h2s: "h2s = assign_ids
                (zip (map fst hs) (map (\<lambda>x. int (index_of (first_seen ks) x)) ks)) []"
    by blast
  from ks have len: "length ks = length hs"
    by (metis length_map)
  then have "map fst (zip (map fst hs) (map (\<lambda>x. int (index_of (first_seen ks) x)) ks))
               = map fst hs"
    by simp
  with assms(2) have "assign_ids
       (zip (map fst hs) (map (\<lambda>x. int (index_of (first_seen ks) x)) ks)) []
     = zip (map fst hs) (map (\<lambda>x. int (index_of (first_seen ks) x)) ks)"
    using assign_ids_distinct
      [of "zip (map fst hs) (map (\<lambda>x. int (index_of (first_seen ks) x)) ks)" "[]"]
    by simp
  with ks n h2s show ?thesis by blast
qed


lemma host_key_nth:
  assumes ks: "map (\<lambda>(h, ds). host_key H d2i ds) hs = map Inr ks"
    and mem: "(a, da) \<in> set hs"
  shows "\<exists>i<length hs. hs ! i = (a, da) \<and> host_key H d2i da = Inr (ks ! i) \<and> i < length ks"
proof -
  from mem obtain i where i: "i < length hs" "hs ! i = (a, da)"
    by (metis in_set_conv_nth)
  from ks have len: "length ks = length hs" by (metis length_map)
  from ks i len have "host_key H d2i da = Inr (ks ! i)"
    by (metis (mono_tags, lifting) case_prod_conv nth_map)
  with i len show ?thesis by auto
qed

lemma get_unique_shards_id:
  assumes res: "get_unique_shards H hs d2i = Inr (h2s, n)"
    and dist: "distinct (map fst hs)"
    and mem: "(a, da) \<in> set hs"
  shows "\<exists>k ks. map (\<lambda>(h, ds). host_key H d2i ds) hs = map Inr ks \<and>
           n = int (length (first_seen ks)) \<and>
           h2s = zip (map fst hs) (map (\<lambda>x. int (index_of (first_seen ks) x)) ks) \<and>
           host_key H d2i da = Inr k \<and> k \<in> set ks \<and>
           dict_get h2s a = Some (int (index_of (first_seen ks) k))"
proof -
  from get_unique_shards_distinct_hosts [OF res dist] obtain ks where
    ks: "map (\<lambda>(h, ds). host_key H d2i ds) hs = map Inr ks"
    and n: "n = int (length (first_seen ks))"
    and h2s: "h2s = zip (map fst hs) (map (\<lambda>x. int (index_of (first_seen ks) x)) ks)"
    by blast
  from host_key_nth [OF ks mem] obtain i where
    i: "i < length hs" "hs ! i = (a, da)" "host_key H d2i da = Inr (ks ! i)" "i < length ks"
    by blast
  from ks have len: "length ks = length hs" by (metis length_map)
  have "(a, int (index_of (first_seen ks) (ks ! i))) \<in> set h2s"
    unfolding h2s using i len
    by (auto simp: in_set_conv_nth intro!: exI [of _ i])
  moreover have "distinct (map fst h2s)"
    unfolding h2s using dist len by simp
  ultimately have "dict_get h2s a = Some (int (index_of (first_seen ks) (ks ! i)))"
    by (rule dict_get_distinct [rotated])
  with ks n h2s i show ?thesis by auto
qed

lemma host_key_Inr:
  "host_key H d2i ds = Inr k \<Longrightarrow>
   \<exists>xs. items_of d2i ds = Inr xs \<and> k = H (hashable_indices xs)"
  by (auto simp: host_key_def split: sum.splits)

lemma get_unique_shards_same_id_iff_same_key:
  assumes res: "get_unique_shards H hs d2i = Inr (h2s, n)"
    and dist: "distinct (map fst hs)"
    and a: "(a, da) \<in> set hs" and b: "(b, db) \<in> set hs"
  shows "\<exists>ia ib xa xb.
           dict_get h2s a = Some ia \<and> dict_get h2s b = Some ib \<and>
           items_of d2i da = Inr xa \<and> items_of d2i db = Inr xb \<and>
           ((ia = ib) = (H (hashable_indices xa) = H (hashable_indices xb)))"
proof -
  from get_unique_shards_id [OF res dist a] obtain ka ks where
    ks: "map (\<lambda>(h, ds). host_key H d2i ds) hs = map Inr ks"
    and ka: "host_key H d2i da = Inr ka" "ka \<in> set ks"
    and ia: "dict_get h2s a = Some (int (index_of (first_seen ks) ka))"
    by blast
  from get_unique_shards_id [OF res dist b] obtain kb ks' where
    ks': "map (\<lambda>(h, ds). host_key H d2i ds) hs = map Inr ks'"
    and kb: "host_key H d2i db = Inr kb" "kb \<in> set ks'"
    and ib: "dict_get h2s b = Some (int (index_of (first_seen ks') kb))"
    by blast
  from ks ks' have "map Inr ks = (map Inr ks' :: (py_error + int) list)" by simp
  then have same: "ks' = ks"
    by (simp add: inj_map_eq_map)
  from host_key_Inr [OF ka(1)] obtain xa where
    xa: "items_of d2i da = Inr xa" "ka = H (hashable_indices xa)" by blast
  from host_key_Inr [OF kb(1)] obtain xb where
    xb: "items_of d2i db = Inr xb" "kb = H (hashable_indices xb)" by blast
  have "(index_of (first_seen ks) ka = index_of (first_seen ks) kb) = (ka = kb)"
    using index_of_inj [of ka "first_seen ks" kb] ka(2) kb(2) same
    by (auto simp: set_first_seen)
  with ia ib xa xb same show ?thesis by auto
qed

section \<open>Properties of get\_unique\_shards\<close>

text \<open>
  Claim C1, as amended. The function files every host under the hash of the tuple of the
  set of its devices' whole index tuples: the pairs \<open>(start, stop)\<close> of every dimension,
  not of the batch dimension alone. For two hosts of the grouping for which that hash
  agrees exactly when the two sets of index tuples are the same set, the hosts receive the
  same shard id if and only if their sets of index tuples are identical.
\<close>

theorem get_unique_shards_same_shard_iff_same_index_set:
  assumes "get_unique_shards H host_to_devices device_to_index = Inr (host_to_shard, n)"
    and "distinct (map fst host_to_devices)"
    and "(a, da) \<in> set host_to_devices" and "(b, db) \<in> set host_to_devices"
  shows "\<exists>ia ib xa xb.
           dict_get host_to_shard a = Some ia \<and> dict_get host_to_shard b = Some ib \<and>
           items_of device_to_index da = Inr xa \<and> items_of device_to_index db = Inr xb \<and>
           (((H (hashable_indices xa) = H (hashable_indices xb)) =
               (set (hashable_indices xa) = set (hashable_indices xb))) \<longrightarrow>
            ((ia = ib) = (set (hashable_indices xa) = set (hashable_indices xb))))"
  using get_unique_shards_same_id_iff_same_key [OF assms] by blast

theorem get_unique_shards_same_shard_iff_same_index_set_witness:
  "get_unique_shards (cpython_H 0) [(0, [0::int]), (1, [1])]
     [(0, [Slice (Some 0) (Some 8), Slice (Some 0) (Some 4)]),
      (1, [Slice (Some 0) (Some 8), Slice (Some 0) (Some 4)])]
     = Inr ([(0, 0), (1, 0)], 1) \<and>
   (\<exists>ia ib xa xb.
      dict_get [(0, 0), (1, 0 :: int)] (0 :: int) = Some ia \<and>
      dict_get [(0, 0), (1, 0 :: int)] (1 :: int) = Some ib \<and>
      ia = ib \<and>
      xa = [[Slice (Some 0) (Some 8), Slice (Some 0) (Some 4)]] \<and>
      xb = xa \<and> set (hashable_indices xa) = set (hashable_indices xb))"
proof -
  let ?hs = "[(0 :: int, [0::int]), (1, [1])]"
  let ?d2i = "[(0 :: int, [Slice (Some 0) (Some 8), Slice (Some 0) (Some 4)]),
      (1, [Slice (Some 0) (Some 8), Slice (Some 0) (Some 4)])]"
  have run: "get_unique_shards (cpython_H 0) ?hs ?d2i = Inr ([(0, 0), (1, 0)], 1)"
    by code_simp
  have dist: "distinct (map fst ?hs)" by simp
  have a: "(0, [0]) \<in> set ?hs" and b: "(1, [1]) \<in> set ?hs" by simp_all
  from get_unique_shards_same_shard_iff_same_index_set [OF run dist a b] run
  show ?thesis by (simp add: dict_item_def)
qed

text \<open>
  Claim C1 as stated fails: two hosts whose devices need the same batch-dimension range
  \<open>[0, 2)\<close> but different ranges of the second dimension get different shard ids.
\<close>

theorem get_unique_shards_batch_ranges_counterexample:
  "get_unique_shards (cpython_H 0) [(0, [0::int]), (1, [1])]
     [(0, [Slice (Some 0) (Some 2), Slice (Some 0) (Some 4)]),
      (1, [Slice (Some 0) (Some 2), Slice (Some 4) (Some 8)])]
     = Inr ([(0, 0), (1, 1)], 2) \<and>
   data_indices [[Slice (Some 0) (Some 2), Slice (Some 0) (Some 4)]]
     = data_indices [[Slice (Some 0) (Some 2), Slice (Some 4) (Some 8)]]"
proof -
  have "get_unique_shards (cpython_H 0) [(0, [0::int]), (1, [1])]
     [(0, [Slice (Some 0) (Some 2), Slice (Some 0) (Some 4)]),
      (1, [Slice (Some 0) (Some 2), Slice (Some 4) (Some 8)])]
     = Inr ([(0, 0), (1, 1)], 2)"
    by code_simp
  then show ?thesis by (simp add: data_dim_def)
qed



lemma index_of_first_seen_take:
  assumes "i < length ks"
  shows "index_of (first_seen ks) (ks ! i) =
           (if ks ! i \<in> set (take i ks) then index_of (first_seen (take i ks)) (ks ! i)
            else card (set (take i ks)))"
proof -
  from assms have split: "ks = take i ks @ ks ! i # drop (Suc i) ks"
    by (simp add: id_take_nth_drop)
  let ?pre = "first_seen (take i ks)"
  let ?seen = "if ks ! i \<in> set ?pre then ?pre else ?pre @ [ks ! i]"
  have "first_seen ks = first_seen_from ?pre (ks ! i # drop (Suc i) ks)"
    by (subst split) (simp add: first_seen_def first_seen_from_append)
  then have fs: "first_seen ks = first_seen_from ?seen (drop (Suc i) ks)"
    by simp
  have "ks ! i \<in> set ?seen" by simp
  from index_of_first_seen_from [OF this, of "drop (Suc i) ks"] fs
  have "index_of (first_seen ks) (ks ! i) = index_of ?seen (ks ! i)" by simp
  then show ?thesis
    by (simp add: set_first_seen index_of_snoc_new length_first_seen)
qed

text \<open>
  The walk of \<open>get_unique_shards\<close> in terms of the pipeline hashes: hosts are visited
  in the order of the dictionary; a host whose hash has not occurred before gets the
  number of distinct hashes met so far, a host whose hash has occurred gets the id filed
  under it; the count is the number of distinct hashes, and every id lies below it.
\<close>

lemma get_unique_shards_walk:
  assumes res: "get_unique_shards H hs d2i = Inr (h2s, n)"
    and dist: "distinct (map fst hs)"
  shows "\<exists>ks. map (\<lambda>(h, ds). host_key H d2i ds) hs = map Inr ks \<and>
           map fst h2s = map fst hs \<and>
           n = int (card (set ks)) \<and>
           (\<forall>i<length hs.
              (ks ! i \<notin> set (take i ks) \<longrightarrow> snd (h2s ! i) = int (card (set (take i ks)))) \<and>
              (\<forall>j<i. ks ! j = ks ! i \<longrightarrow> snd (h2s ! i) = snd (h2s ! j)) \<and>
              0 \<le> snd (h2s ! i) \<and> snd (h2s ! i) < n)"
proof -
  from get_unique_shards_distinct_hosts [OF res dist] obtain ks where
    ks: "map (\<lambda>(h, ds). host_key H d2i ds) hs = map Inr ks"
    and n: "n = int (length (first_seen ks))"
    and h2s: "h2s = zip (map fst hs) (map (\<lambda>x. int (index_of (first_seen ks) x)) ks)"
    by blast
  from ks have len: "length ks = length hs" by (metis length_map)
  have id: "snd (h2s ! i) = int (index_of (first_seen ks) (ks ! i))" if "i < length hs" for i
    using that len by (simp add: h2s)
  have "map fst h2s = map fst hs"
    using len by (simp add: h2s)
  moreover have "n = int (card (set ks))"
    using n by (simp add: length_first_seen)
  moreover have "(ks ! i \<notin> set (take i ks) \<longrightarrow> snd (h2s ! i) = int (card (set (take i ks)))) \<and>
              (\<forall>j<i. ks ! j = ks ! i \<longrightarrow> snd (h2s ! i) = snd (h2s ! j)) \<and>
              0 \<le> snd (h2s ! i) \<and> snd (h2s ! i) < n" if i: "i < length hs" for i
  proof -
    from i len have mem: "ks ! i \<in> set (first_seen ks)"
      by (simp add: set_first_seen)
    from index_of_less [OF mem] have "snd (h2s ! i) < n"
      using id [OF i] n by simp
    moreover have "snd (h2s ! i) = int (card (set (take i ks)))"
      if "ks ! i \<notin> set (take i ks)"
      using index_of_first_seen_take [of i ks] that i len id [OF i] by simp
    moreover have "snd (h2s ! i) = snd (h2s ! j)" if "j < i" "ks ! j = ks ! i" for j
      using that i id [of i] id [of j] by simp
    ultimately show ?thesis using id [OF i] by simp
  qed
  ultimately show ?thesis using ks by blast
qed

text \<open>
  Claim C4 fails on the code. Two hosts hold the same set of index tuples, rows
  \<open>[0, 4)\<close> and \<open>[4, 8)\<close> of an 8 by 8 array, and list their devices in opposite
  orders. The set is iterated in two different orders, the two tuples hash differently
  (to -316952048041866279 and to 2993095838081274027),
  and the second host is given a fresh shard id instead of the first host's: the count is
  2 for one distinct set.
\<close>

theorem get_unique_shards_repeated_set_fresh_id:
  "get_unique_shards (cpython_H 0) [(0, [0::int, 1]), (1, [2, 3])]
     [(0, [Slice (Some 0) (Some 4), Slice (Some 0) (Some 8)]),
      (1, [Slice (Some 4) (Some 8), Slice (Some 0) (Some 8)]),
      (2, [Slice (Some 4) (Some 8), Slice (Some 0) (Some 8)]),
      (3, [Slice (Some 0) (Some 4), Slice (Some 0) (Some 8)])]
     = Inr ([(0, 0), (1, 1)], 2) \<and>
   set (hashable_indices [[Slice (Some 0) (Some 4), Slice (Some 0) (Some 8)],
                          [Slice (Some 4) (Some 8), Slice (Some 0) (Some 8)]])
     = set (hashable_indices [[Slice (Some 4) (Some 8), Slice (Some 0) (Some 8)],
                              [Slice (Some 0) (Some 4), Slice (Some 0) (Some 8)]])"
proof -
  have "get_unique_shards (cpython_H 0) [(0, [0::int, 1]), (1, [2, 3])]
     [(0, [Slice (Some 0) (Some 4), Slice (Some 0) (Some 8)]),
      (1, [Slice (Some 4) (Some 8), Slice (Some 0) (Some 8)]),
      (2, [Slice (Some 4) (Some 8), Slice (Some 0) (Some 8)]),
      (3, [Slice (Some 0) (Some 4), Slice (Some 0) (Some 8)])]
     = Inr ([(0, 0), (1, 1)], 2)"
    by code_simp
  then show ?thesis
    by (simp add: hashable_indices_def insert_commute)
qed

section \<open>Facts about convert\_global\_indices\_to\_local\_indices\<close>

lemma items_of_Inr_D:
  "items_of d ks = Inr vs \<Longrightarrow> map (dict_get d) ks = map Some vs"
  by (induction ks arbitrary: vs)
     (auto simp: dict_item_def split: sum.splits option.splits)

lemma items_of_Inr_I:
  "map (dict_get d) ks = map Some vs \<Longrightarrow> items_of d ks = Inr vs"
  by (induction ks arbitrary: vs) (auto simp: dict_item_def)

lemma data_indices_Inr_D:
  "data_indices lis = Inr bs \<Longrightarrow>
     (\<forall>s\<in>set lis. s \<noteq> []) \<and> bs = map (\<lambda>s. (start (s ! 0), stop (s ! 0))) lis"
  by (induction lis arbitrary: bs)
     (auto simp: data_dim_def split: sum.splits if_splits)

lemma data_indices_Inr_I:
  "\<forall>s\<in>set lis. s \<noteq> [] \<Longrightarrow>
   data_indices lis = Inr (map (\<lambda>s. (start (s ! 0), stop (s ! 0))) lis)"
  by (induction lis) (auto simp: data_dim_def)

lemma bounds_of_inj: "bounds_of r = bounds_of r' \<longleftrightarrow> r = r'"
  by (auto simp: bounds_of_def prod_eq_iff)

lemma dict_set_same:
  "(k, v) \<in> set d \<Longrightarrow> distinct (map fst d) \<Longrightarrow> dict_set d k v = d"
  by (induction d) (force split: if_splits)+

lemma unique_slice_sizes_char:
  assumes "unique_slice_sizes (map (\<lambda>r. (bounds_of r, range_size r)) seen) bs = Inr sizes"
    and "distinct seen"
  shows "\<exists>rs. bs = map bounds_of rs \<and>
           sizes = map (\<lambda>r. (bounds_of r, range_size r)) (first_seen_from seen rs)"
  using assms
proof (induction bs arbitrary: seen)
  case Nil
  then show ?case by simp
next
  case (Cons idx bs)
  let ?g = "\<lambda>r. (bounds_of r, range_size r)"
  from Cons.prems(1) obtain a b where idx: "idx = (Some a, Some b)"
    by (cases idx) (auto split: option.splits)
  let ?r = "(a, b)"
  let ?seen' = "if ?r \<in> set seen then seen else seen @ [?r]"
  have keys: "map fst (map ?g seen) = map bounds_of seen" by simp
  have dist: "distinct (map fst (map ?g seen))"
    unfolding keys using Cons.prems(2)
    by (simp add: distinct_map inj_on_def bounds_of_inj)
  have upd: "dict_set (map ?g seen) idx (b - a) = map ?g ?seen'"
  proof (cases "?r \<in> set seen")
    case True
    then have "(idx, b - a) \<in> set (map ?g seen)"
      by (force simp: idx bounds_of_def range_size_def)
    from dict_set_same [OF this dist] True show ?thesis by simp
  next
    case False
    then have "idx \<notin> fst ` set (map ?g seen)"
      by (auto simp: idx bounds_of_def)
    from dict_set_new [OF this] False show ?thesis
      by (simp add: idx bounds_of_def range_size_def)
  qed
  from Cons.prems(1) have "unique_slice_sizes (map ?g ?seen') bs = Inr sizes"
    unfolding idx using upd [unfolded idx] by (simp del: dict_set.simps)
  moreover from Cons.prems(2) have "distinct ?seen'" by simp
  ultimately obtain rs where rs: "bs = map bounds_of rs"
    "sizes = map ?g (first_seen_from ?seen' rs)"
    using Cons.IH by blast
  then have "idx # bs = map bounds_of (?r # rs) \<and>
    sizes = map ?g (first_seen_from seen (?r # rs))"
    by (simp add: idx bounds_of_def)
  then show ?case by (rule exI)
qed

lemma assign_local_slices_char:
  assumes "distinct rs" and "bounds_of ` set rs \<inter> fst ` set li = {}"
  shows "assign_local_slices off li (map (\<lambda>r. (bounds_of r, range_size r)) rs) =
           (li @ layout_from off rs, off + sum_list (map range_size rs))"
  using assms
proof (induction rs arbitrary: off li)
  case Nil
  then show ?case by simp
next
  case (Cons r rs)
  let ?sl = "Slice (Some off) (Some (off + range_size r))"
  from Cons.prems have new: "bounds_of r \<notin> fst ` set li" by auto
  from Cons.prems have "distinct rs"
    and "bounds_of ` set rs \<inter> fst ` set (li @ [(bounds_of r, ?sl)]) = {}"
    by (auto simp: bounds_of_inj)
  from Cons.IH [OF this, of "off + range_size r"] new show ?case
    by (simp add: dict_set_new add.assoc)
qed

lemma dict_get_layout_from:
  "distinct rs \<Longrightarrow> r \<in> set rs \<Longrightarrow>
   dict_get (layout_from off rs) (bounds_of r) =
     Some (Slice (Some (off + sum_list (map range_size (take (index_of rs r) rs))))
                 (Some (off + sum_list (map range_size (take (index_of rs r) rs)) + range_size r)))"
proof (induction rs arbitrary: off)
  case Nil
  then show ?case by simp
next
  case (Cons x rs)
  show ?case
  proof (cases "x = r")
    case True
    then show ?thesis by simp
  next
    case False
    with Cons.prems have "distinct rs" "r \<in> set rs" by auto
    from Cons.IH [OF this, of "off + range_size x"] False show ?thesis
      by (simp add: bounds_of_inj add.assoc)
  qed
qed

lemma assign_devices_char:
  assumes "\<forall>dev\<in>set devs. dict_get li (f dev) \<noteq> None"
  shows "\<exists>d'. assign_devices li d (map (\<lambda>dev. (dev, f dev)) devs) = Inr d' \<and>
           (\<forall>dev. dict_get d' dev =
              (if dev \<in> set devs then dict_get li (f dev) else dict_get d dev))"
  using assms
proof (induction devs arbitrary: d)
  case Nil
  then show ?case by simp
next
  case (Cons x devs)
  from Cons.prems obtain sl where sl: "dict_get li (f x) = Some sl" by auto
  from Cons.prems have "\<forall>dev\<in>set devs. dict_get li (f dev) \<noteq> None" by simp
  from Cons.IH [OF this, of "dict_set d x sl"] obtain d' where
    d': "assign_devices li (dict_set d x sl) (map (\<lambda>dev. (dev, f dev)) devs) = Inr d'"
    "\<forall>dev. dict_get d' dev =
        (if dev \<in> set devs then dict_get li (f dev) else dict_get (dict_set d x sl) dev)"
    by blast
  from d' sl show ?case
    by (auto simp: dict_item_def dict_get_dict_set)
qed

lemma zip_map_same: "zip xs (map f xs) = map (\<lambda>x. (x, f x)) xs"
  by (induction xs) auto

lemma index_of_nth_distinct:
  "distinct xs \<Longrightarrow> k < length xs \<Longrightarrow> index_of xs (xs ! k) = k"
proof (induction xs arbitrary: k)
  case Nil
  then show ?case by simp
next
  case (Cons x xs)
  then show ?case by (cases k) auto
qed

lemma convert_char:
  assumes res: "convert_global_indices_to_local_indices devs d2i = Inr (d2l, tot)"
  shows "\<exists>rs. map (batch_range d2i) devs = map (\<lambda>r. Some (bounds_of r)) rs \<and>
           tot = sum_list (map range_size (first_seen rs)) \<and>
           (\<forall>i<length devs. dict_get d2l (devs ! i) = Some (local_slice rs (rs ! i)))"
proof -
  from res obtain lis bs sizes li where
    lis: "items_of d2i devs = Inr lis"
    and bs: "data_indices lis = Inr bs"
    and sizes: "unique_slice_sizes [] bs = Inr sizes"
    and li: "assign_local_slices 0 [] sizes = (li, tot)"
    and d2l: "assign_devices li [] (zip devs bs) = Inr d2l"
    by (auto simp: convert_global_indices_to_local_indices_def
          split: sum.splits prod.splits)
  from items_of_Inr_D [OF lis] have get: "map (dict_get d2i) devs = map Some lis" .
  then have len_lis: "length lis = length devs" by (metis length_map)
  from data_indices_Inr_D [OF bs] have ne: "\<forall>s\<in>set lis. s \<noteq> []"
    and bs_eq: "bs = map (\<lambda>s. (start (s ! 0), stop (s ! 0))) lis" by simp_all
  from unique_slice_sizes_char [of "[]" bs sizes] sizes obtain rs where
    rs: "bs = map bounds_of rs"
    and sz: "sizes = map (\<lambda>r. (bounds_of r, range_size r)) (first_seen rs)"
    by (auto simp: first_seen_def)
  from rs bs_eq len_lis have len_rs: "length rs = length devs"
    by (metis length_map)
  let ?D = "first_seen rs"
  from assign_local_slices_char [of ?D "[]" 0] li sz
  have li_eq: "li = layout_from 0 ?D" and tot: "tot = sum_list (map range_size ?D)"
    by (simp_all add: distinct_first_seen)
  have range_i: "batch_range d2i (devs ! i) = Some (bounds_of (rs ! i))"
    if "i < length devs" for i
  proof -
    from get that len_lis have g: "dict_get d2i (devs ! i) = Some (lis ! i)"
      by (metis nth_map)
    from that len_lis ne have "lis ! i \<noteq> []" by simp
    moreover have "bs ! i = (start (lis ! i ! 0), stop (lis ! i ! 0))"
      using that len_lis by (simp add: bs_eq)
    moreover have "bs ! i = bounds_of (rs ! i)"
      using that len_rs by (simp add: rs)
    ultimately show ?thesis using g by (simp add: batch_range_def)
  qed
  define f where "f dev = the (batch_range d2i dev)" for dev
  have f_i: "f (devs ! i) = bounds_of (rs ! i)" if "i < length devs" for i
    using range_i [OF that] by (simp add: f_def)
  have "bs = map f devs"
    unfolding rs using f_i len_rs by (simp add: list_eq_iff_nth_eq)
  then have zip_eq: "zip devs bs = map (\<lambda>dev. (dev, f dev)) devs"
    by (simp add: zip_map_same)
  have look: "dict_get li (bounds_of (rs ! i)) = Some (local_slice rs (rs ! i))"
    if "i < length devs" for i
  proof -
    from that len_rs have "rs ! i \<in> set ?D" by (simp add: set_first_seen)
    from dict_get_layout_from [OF distinct_first_seen this, of 0] show ?thesis
      by (simp add: li_eq local_slice_def local_offset_def)
  qed
  have "\<forall>dev\<in>set devs. dict_get li (f dev) \<noteq> None"
  proof
    fix dev assume "dev \<in> set devs"
    then obtain i where "i < length devs" "dev = devs ! i"
      by (metis in_set_conv_nth)
    with f_i look show "dict_get li (f dev) \<noteq> None" by simp
  qed
  from assign_devices_char [OF this, of "[]"] d2l zip_eq
  have d2l_get: "\<forall>dev. dict_get d2l dev =
      (if dev \<in> set devs then dict_get li (f dev) else dict_get [] dev)"
    by auto
  have "dict_get d2l (devs ! i) = Some (local_slice rs (rs ! i))" if "i < length devs" for i
    using d2l_get that f_i [OF that] look [OF that] by simp
  moreover have "map (batch_range d2i) devs = map (\<lambda>r. Some (bounds_of r)) rs"
    using range_i len_rs by (simp add: list_eq_iff_nth_eq)
  ultimately show ?thesis using tot by blast
qed

lemma convert_returns:
  assumes wf: "\<forall>dev\<in>set devs. \<exists>idx a b. dict_get d2i dev = Some idx \<and> idx \<noteq> [] \<and>
                 start (idx ! 0) = Some a \<and> stop (idx ! 0) = Some b"
  shows "\<exists>d2l tot. convert_global_indices_to_local_indices devs d2i = Inr (d2l, tot)"
proof -
  define lis where "lis = map (\<lambda>dev. the (dict_get d2i dev)) devs"
  have "map (dict_get d2i) devs = map Some lis"
    using wf by (auto simp: lis_def)
  from items_of_Inr_I [OF this] have lis: "items_of d2i devs = Inr lis" .
  have ne: "\<forall>s\<in>set lis. s \<noteq> []"
    using wf by (auto simp: lis_def)
  define bs where "bs = map (\<lambda>s. (start (s ! 0), stop (s ! 0))) lis"
  from data_indices_Inr_I [OF ne] have bs: "data_indices lis = Inr bs"
    by (simp add: bs_def)
  have some: "\<forall>b\<in>set bs. \<exists>x y. b = (Some x, Some y)"
    using wf by (auto simp: bs_def lis_def)
  have uss: "\<exists>sizes. unique_slice_sizes d bs' = Inr sizes"
    if "\<forall>b\<in>set bs'. \<exists>x y. b = (Some x, Some y)" for d bs'
    using that
  proof (induction bs' arbitrary: d)
    case Nil
    then show ?case by simp
  next
    case (Cons b bs')
    then obtain x y where "b = (Some x, Some y)" by auto
    with Cons show ?case by (simp del: dict_set.simps)
  qed
  from uss [OF some] obtain sizes where sizes: "unique_slice_sizes [] bs = Inr sizes"
    by blast
  obtain li tot where li: "assign_local_slices 0 [] sizes = (li, tot)"
    by (cases "assign_local_slices 0 [] sizes")
  from unique_slice_sizes_char [of "[]" bs sizes] sizes obtain rs where
    rs: "bs = map bounds_of rs"
    and sz: "sizes = map (\<lambda>r. (bounds_of r, range_size r)) (first_seen rs)"
    by (auto simp: first_seen_def)
  from assign_local_slices_char [of "first_seen rs" "[]" 0] li sz
  have li_eq: "li = layout_from 0 (first_seen rs)"
    by (simp_all add: distinct_first_seen)
  define f where "f dev = (start (the (dict_get d2i dev) ! 0), stop (the (dict_get d2i dev) ! 0))"
    for dev
  have "bs = map f devs"
    by (simp add: bs_def lis_def f_def)
  then have zip_eq: "zip devs bs = map (\<lambda>dev. (dev, f dev)) devs"
    by (simp add: zip_map_same)
  have "\<forall>dev\<in>set devs. dict_get li (f dev) \<noteq> None"
  proof
    fix dev assume "dev \<in> set devs"
    with \<open>bs = map f devs\<close> have "f dev \<in> set bs" by simp
    with rs obtain r where r: "r \<in> set rs" "f dev = bounds_of r" by auto
    then have "r \<in> set (first_seen rs)" by (simp add: set_first_seen)
    from dict_get_layout_from [OF distinct_first_seen this, of 0] r
    show "dict_get li (f dev) \<noteq> None" by (simp add: li_eq)
  qed
  from assign_devices_char [OF this, of "[]"] zip_eq obtain d2l where
    "assign_devices li [] (zip devs bs) = Inr d2l" by auto
  with lis bs sizes li show ?thesis
    by (simp add: convert_global_indices_to_local_indices_def)
qed

lemma sum_take_mono:
  fixes zs :: "int list"
  assumes "\<forall>z\<in>set zs. 0 \<le> z" and "k \<le> l"
  shows "sum_list (take k zs) \<le> sum_list (take l zs)"
proof -
  from assms(2) have "take l zs = take k zs @ take (l - k) (drop k zs)"
    by (metis le_add_diff_inverse take_add)
  moreover have "0 \<le> sum_list (take (l - k) (drop k zs))"
    using assms(1) by (intro sum_list_nonneg) (auto dest: in_set_takeD in_set_dropD)
  ultimately show ?thesis by simp
qed

lemma prefix_intervals_cover:
  fixes zs :: "int list"
  assumes "\<forall>z\<in>set zs. 0 \<le> z"
  shows "(\<Union>k<length zs. {sum_list (take k zs) ..< sum_list (take (Suc k) zs)})
           = {0 ..< sum_list zs}"
  using assms
proof (induction zs rule: rev_induct)
  case Nil
  then show ?case by simp
next
  case (snoc z zs)
  from snoc.prems have nonneg: "\<forall>z\<in>set zs. 0 \<le> z" and z: "0 \<le> z" by simp_all
  from nonneg have s0: "0 \<le> sum_list zs" by (intro sum_list_nonneg) auto
  have same: "{sum_list (take k (zs @ [z])) ..< sum_list (take (Suc k) (zs @ [z]))}
      = {sum_list (take k zs) ..< sum_list (take (Suc k) zs)}" if "k < length zs" for k
    using that by simp
  have "(\<Union>k<length (zs @ [z]).
          {sum_list (take k (zs @ [z])) ..< sum_list (take (Suc k) (zs @ [z]))})
      = (\<Union>k<length zs.
          {sum_list (take k (zs @ [z])) ..< sum_list (take (Suc k) (zs @ [z]))})
          \<union> {sum_list zs ..< sum_list zs + z}"
    by (simp add: lessThan_Suc Un_commute)
  also have "(\<Union>k<length zs.
          {sum_list (take k (zs @ [z])) ..< sum_list (take (Suc k) (zs @ [z]))})
      = (\<Union>k<length zs. {sum_list (take k zs) ..< sum_list (take (Suc k) zs)})"
    by (rule SUP_cong) (simp_all only: same lessThan_iff)
  also have "\<dots> = {0 ..< sum_list zs}"
    using snoc.IH [OF nonneg] .
  also have "{0 ..< sum_list zs} \<union> {sum_list zs ..< sum_list zs + z}
      = {0 ..< sum_list (zs @ [z])}"
    using s0 z by auto
  finally show ?case .
qed

lemma UN_nth_set: "(\<Union>i<length xs. F (xs ! i)) = (\<Union>x\<in>set xs. F x)"
proof (intro set_eqI iffI)
  fix y assume "y \<in> (\<Union>i<length xs. F (xs ! i))"
  then obtain i where "i < length xs" "y \<in> F (xs ! i)" by auto
  then show "y \<in> (\<Union>x\<in>set xs. F x)" using nth_mem by blast
next
  fix y assume "y \<in> (\<Union>x\<in>set xs. F x)"
  then obtain x where "x \<in> set xs" "y \<in> F x" by auto
  then obtain i where "i < length xs" "x = xs ! i" by (metis in_set_conv_nth)
  with \<open>y \<in> F x\<close> show "y \<in> (\<Union>i<length xs. F (xs ! i))" by auto
qed

lemma local_slice_interval:
  assumes "r \<in> set rs"
  shows "slice_interval (local_slice rs r) =
           {sum_list (take (index_of (first_seen rs) r) (map range_size (first_seen rs))) ..<
            sum_list (take (Suc (index_of (first_seen rs) r)) (map range_size (first_seen rs)))}"
proof -
  let ?D = "first_seen rs"
  from assms have mem: "r \<in> set ?D" by (simp add: set_first_seen)
  from index_of_less [OF mem] nth_index_of [OF mem]
  have "take (Suc (index_of ?D r)) ?D = take (index_of ?D r) ?D @ [r]"
    by (simp add: take_Suc_conv_app_nth)
  then have "sum_list (take (Suc (index_of ?D r)) (map range_size ?D))
      = sum_list (take (index_of ?D r) (map range_size ?D)) + range_size r"
    by (simp add: take_map)
  then show ?thesis
    by (simp add: slice_interval_def local_slice_def local_offset_def take_map)
qed

lemma local_slices_cover:
  assumes "\<forall>r\<in>set rs. fst r \<le> snd r"
  shows "(\<Union>i<length rs. slice_interval (local_slice rs (rs ! i)))
           = {0 ..< sum_list (map range_size (first_seen rs))}"
proof -
  let ?D = "first_seen rs"
  let ?zs = "map range_size ?D"
  have nonneg: "\<forall>z\<in>set ?zs. 0 \<le> z"
    using assms by (auto simp: set_first_seen range_size_def)
  have "(\<Union>i<length rs. slice_interval (local_slice rs (rs ! i)))
      = (\<Union>r\<in>set rs. slice_interval (local_slice rs r))"
    by (rule UN_nth_set)
  also have "\<dots> = (\<Union>r\<in>set ?D. slice_interval (local_slice rs r))"
    by (simp add: set_first_seen)
  also have "\<dots> = (\<Union>k<length ?D. slice_interval (local_slice rs (?D ! k)))"
    by (rule UN_nth_set [symmetric])
  also have "\<dots> = (\<Union>k<length ?zs. {sum_list (take k ?zs) ..< sum_list (take (Suc k) ?zs)})"
  proof -
    have "slice_interval (local_slice rs (?D ! k))
        = {sum_list (take k ?zs) ..< sum_list (take (Suc k) ?zs)}" if "k < length ?D" for k
    proof -
      from that have "?D ! k \<in> set rs"
        using nth_mem [OF that] by (simp add: set_first_seen)
      from local_slice_interval [OF this]
        index_of_nth_distinct [OF distinct_first_seen that]
      show ?thesis by simp
    qed
    then show ?thesis by simp
  qed
  also have "\<dots> = {0 ..< sum_list ?zs}"
    by (rule prefix_intervals_cover [OF nonneg])
  finally show ?thesis .
qed

lemma local_slices_disjoint:
  assumes nonneg: "\<forall>r\<in>set rs. fst r \<le> snd r"
    and r: "r \<in> set rs" and r': "r' \<in> set rs" and ne: "r \<noteq> r'"
  shows "slice_interval (local_slice rs r) \<inter> slice_interval (local_slice rs r') = {}"
proof -
  let ?D = "first_seen rs"
  let ?zs = "map range_size ?D"
  have nn: "\<forall>z\<in>set ?zs. 0 \<le> z"
    using nonneg by (auto simp: set_first_seen range_size_def)
  have ord: "slice_interval (local_slice rs x) \<inter> slice_interval (local_slice rs y) = {}"
    if x: "x \<in> set rs" and y: "y \<in> set rs"
      and lt: "index_of ?D x < index_of ?D y" for x y
  proof -
    from lt have "Suc (index_of ?D x) \<le> index_of ?D y" by simp
    from sum_take_mono [OF nn this]
    show ?thesis
      unfolding local_slice_interval [OF x] local_slice_interval [OF y] by auto
  qed
  from r r' ne have "index_of ?D r \<noteq> index_of ?D r'"
    using index_of_inj [of r ?D r'] by (auto simp: set_first_seen)
  then consider "index_of ?D r < index_of ?D r'" | "index_of ?D r' < index_of ?D r"
    by linarith
  then show ?thesis
  proof cases
    case 1
    from ord [OF r r' 1] show ?thesis .
  next
    case 2
    from ord [OF r' r 2] show ?thesis by (simp add: Int_commute)
  qed
qed

section \<open>Properties of convert\_global\_indices\_to\_local\_indices\<close>

text \<open>
  Claim C3. Let every local device have an entry in the device-to-slice map whose
  batch-dimension slice has integer bounds; \<open>rs\<close> lists these ranges in device order.
  Then the function returns, and: the distinct ranges are laid out one after the other in
  the order in which they are first seen, the \<open>k\<close>-th of them from the sum of the
  sizes of those before it to that sum plus its own size (so the first starts at 0); the
  buffer size is the sum of the sizes of the distinct ranges; every local device receives
  the local slice of its range, so devices with identical ranges receive identical local
  slices; and, for ranges with \<open>start \<le> stop\<close>, the local slices of the devices
  together cover exactly the positions from 0 up to the buffer size, slices of different
  ranges being disjoint.
\<close>

theorem convert_global_indices_to_local_indices_layout:
  assumes wf: "\<forall>dev\<in>set local_devices. \<exists>idx a b.
      dict_get device_to_index dev = Some idx \<and> idx \<noteq> [] \<and>
      start (idx ! 0) = Some a \<and> stop (idx ! 0) = Some b"
  shows "\<exists>rs d2l tot.
     convert_global_indices_to_local_indices local_devices device_to_index = Inr (d2l, tot) \<and>
     map (batch_range device_to_index) local_devices = map (\<lambda>r. Some (bounds_of r)) rs \<and>
     tot = sum_list (map range_size (first_seen rs)) \<and>
     (\<forall>k<length (first_seen rs).
        local_slice rs (first_seen rs ! k) =
          Slice (Some (sum_list (map range_size (take k (first_seen rs)))))
                (Some (sum_list (map range_size (take (Suc k) (first_seen rs)))))) \<and>
     (\<forall>i<length local_devices.
        dict_get d2l (local_devices ! i) = Some (local_slice rs (rs ! i))) \<and>
     (\<forall>i<length local_devices. \<forall>j<length local_devices.
        rs ! i = rs ! j \<longrightarrow>
        dict_get d2l (local_devices ! i) = dict_get d2l (local_devices ! j)) \<and>
     ((\<forall>r\<in>set rs. fst r \<le> snd r) \<longrightarrow>
        (\<Union>i<length rs. slice_interval (local_slice rs (rs ! i))) = {0..<tot} \<and>
        (\<forall>i<length rs. \<forall>j<length rs. rs ! i \<noteq> rs ! j \<longrightarrow>
           slice_interval (local_slice rs (rs ! i)) \<inter>
           slice_interval (local_slice rs (rs ! j)) = {}))"
proof -
  from convert_returns [OF wf] obtain d2l tot where
    res: "convert_global_indices_to_local_indices local_devices device_to_index
            = Inr (d2l, tot)"
    by blast
  from convert_char [OF res] obtain rs where
    rs: "map (batch_range device_to_index) local_devices = map (\<lambda>r. Some (bounds_of r)) rs"
    and tot: "tot = sum_list (map range_size (first_seen rs))"
    and get: "\<forall>i<length local_devices.
        dict_get d2l (local_devices ! i) = Some (local_slice rs (rs ! i))"
    by blast
  let ?D = "first_seen rs"
  have kth: "\<forall>k<length ?D. local_slice rs (?D ! k) =
          Slice (Some (sum_list (map range_size (take k ?D))))
                (Some (sum_list (map range_size (take (Suc k) ?D))))"
  proof (intro allI impI)
    fix k assume k: "k < length ?D"
    from index_of_nth_distinct [OF distinct_first_seen k] k
    show "local_slice rs (?D ! k) =
          Slice (Some (sum_list (map range_size (take k ?D))))
                (Some (sum_list (map range_size (take (Suc k) ?D))))"
      by (simp add: local_slice_def local_offset_def take_Suc_conv_app_nth)
  qed
  have same: "\<forall>i<length local_devices. \<forall>j<length local_devices.
        rs ! i = rs ! j \<longrightarrow>
        dict_get d2l (local_devices ! i) = dict_get d2l (local_devices ! j)"
    using get by simp
  have cover: "(\<forall>r\<in>set rs. fst r \<le> snd r) \<longrightarrow>
        (\<Union>i<length rs. slice_interval (local_slice rs (rs ! i))) = {0..<tot} \<and>
        (\<forall>i<length rs. \<forall>j<length rs. rs ! i \<noteq> rs ! j \<longrightarrow>
           slice_interval (local_slice rs (rs ! i)) \<inter>
           slice_interval (local_slice rs (rs ! j)) = {})"
  proof (intro impI conjI allI)
    assume nn: "\<forall>r\<in>set rs. fst r \<le> snd r"
    from local_slices_cover [OF nn] tot
    show "(\<Union>i<length rs. slice_interval (local_slice rs (rs ! i))) = {0..<tot}"
      by simp
    fix i j assume "i < length rs" "j < length rs" "rs ! i \<noteq> rs ! j"
    with local_slices_disjoint [OF nn, of "rs ! i" "rs ! j"]
    show "slice_interval (local_slice rs (rs ! i)) \<inter>
          slice_interval (local_slice rs (rs ! j)) = {}"
      by simp
  qed
  show ?thesis
    apply (rule exI [of _ rs], rule exI [of _ d2l], rule exI [of _ tot])
    apply (intro conjI)
          apply (rule res)
         apply (rule rs)
        apply (rule tot)
       apply (rule kth)
      apply (rule get)
     apply (rule same)
    apply (rule cover)
    done
qed

theorem convert_global_indices_to_local_indices_layout_witness:
  "\<exists>rs d2l.
     convert_global_indices_to_local_indices [2 :: int, 3]
       [(0, [Slice (Some 0) (Some 2), Slice None None]),
        (1, [Slice (Some 2) (Some 4), Slice None None]),
        (2, [Slice (Some 4) (Some 6), Slice None None]),
        (3, [Slice (Some 6) (Some 8), Slice None None])]
       = Inr (d2l, 4) \<and>
     d2l = [(2, Slice (Some 0) (Some 2)), (3, Slice (Some 2) (Some 4))] \<and>
     length rs = 2 \<and>
     dict_get d2l 3 = Some (local_slice rs (rs ! 1))"
proof -
  let ?d2i = "[(0 :: int, [Slice (Some 0) (Some 2), Slice None None]),
      (1, [Slice (Some 2) (Some 4), Slice None None]),
      (2, [Slice (Some 4) (Some 6), Slice None None]),
      (3, [Slice (Some 6) (Some 8), Slice None None])]"
  have wf: "\<forall>dev\<in>set [2 :: int, 3]. \<exists>idx a b.
      dict_get ?d2i dev = Some idx \<and> idx \<noteq> [] \<and>
      start (idx ! 0) = Some a \<and> stop (idx ! 0) = Some b"
    by simp
  have run: "convert_global_indices_to_local_indices [2 :: int, 3] ?d2i
     = Inr ([(2, Slice (Some 0) (Some 2)), (3, Slice (Some 2) (Some 4))], 4)"
    by code_simp
  from convert_global_indices_to_local_indices_layout [OF wf] obtain rs d2l tot where
    r: "convert_global_indices_to_local_indices [2 :: int, 3] ?d2i = Inr (d2l, tot)"
    and m: "map (batch_range ?d2i) [2, 3] = map (\<lambda>r. Some (bounds_of r)) rs"
    and g: "\<forall>i<length [2 :: int, 3]. dict_get d2l ([2, 3] ! i) = Some (local_slice rs (rs ! i))"
    by (elim exE conjE) (rule that)
  from m have "length rs = 2"
    by (metis length_map length_Cons list.size(3) numeral_2_eq_2)
  moreover from r run have "d2l = [(2, Slice (Some 0) (Some 2)), (3, Slice (Some 2) (Some 4))]"
    and "tot = 4" by simp_all
  moreover from g [rule_format, of 1] have "dict_get d2l 3 = Some (local_slice rs (rs ! 1))"
    by simp
  ultimately show ?thesis using r by blast
qed

section \<open>Facts about the dataset operations and the grouping of devices\<close>



lemma concat_chunks: "0 < n \<Longrightarrow> concat (chunks n xs) = xs"
proof (induction n xs rule: chunks.induct)
  case (1 n xs)
  show ?case
  proof (cases "xs = []")
    case True
    then show ?thesis by (subst chunks.simps) simp
  next
    case False
    with "1.prems" "1.IH" have "concat (chunks n (drop n xs)) = drop n xs" by simp
    with False "1.prems" show ?thesis by (subst chunks.simps) simp
  qed
qed


lemma group_by_host_get:
  "dict_get (group_by_host acc ds) h =
     (if dict_get acc h = None \<and> filter (\<lambda>d. host_id d = h) ds = [] then None
      else Some ((case dict_get acc h of None \<Rightarrow> [] | Some l \<Rightarrow> l)
                  @ filter (\<lambda>d. host_id d = h) ds))"
proof (induction ds arbitrary: acc)
  case Nil
  then show ?case by (cases "dict_get acc h") simp_all
next
  case (Cons d ds)
  show ?case
    by (cases "dict_get acc h") (simp_all add: Cons.IH dict_get_dict_set)
qed

lemma distinct_keys_dict_set:
  "distinct (map fst d) \<Longrightarrow> distinct (map fst (dict_set d k v))"
  by (induction d) (auto simp: fst_set_dict_set)

lemma distinct_group_by_host:
  "distinct (map fst acc) \<Longrightarrow> distinct (map fst (group_by_host acc ds))"
  by (induction ds arbitrary: acc) (simp_all add: distinct_keys_dict_set)

lemma dict_get_Some_mem: "dict_get d k = Some v \<Longrightarrow> (k, v) \<in> set d"
  by (induction d) (auto split: if_splits)

lemma group_by_host_entry:
  assumes "(h, ds) \<in> set (group_by_host [] devs)"
  shows "ds = filter (\<lambda>d. host_id d = h) devs \<and> ds \<noteq> []"
proof -
  have "distinct (map fst (group_by_host [] devs))"
    by (rule distinct_group_by_host) simp
  from dict_get_distinct [OF this assms] show ?thesis
    by (simp add: group_by_host_get split: if_splits)
qed

lemma group_by_host_keys:
  "fst ` set (group_by_host [] devs) = host_id ` set devs"
proof -
  have "h \<in> fst ` set (group_by_host [] devs) \<longleftrightarrow> h \<in> host_id ` set devs" for h
  proof -
    have "h \<in> fst ` set (group_by_host [] devs) \<longleftrightarrow> dict_get (group_by_host [] devs) h \<noteq> None"
      by (simp add: dict_get_None_iff)
    also have "\<dots> \<longleftrightarrow> filter (\<lambda>d. host_id d = h) devs \<noteq> []"
      by (simp add: group_by_host_get)
    also have "\<dots> \<longleftrightarrow> h \<in> host_id ` set devs"
      by (auto simp: filter_empty_conv)
    finally show ?thesis .
  qed
  then show ?thesis by blast
qed

lemma setup_pipeline_Inr:
  assumes "setup_pipeline H env gsi dataset gs ax = Inr cfg"
  shows "\<exists>shape0 shapes ax0 axs.
           tree_leaves gs = shape0 # shapes \<and> tree_leaves ax = ax0 # axs \<and>
           get_unique_shards H (group_by_host [] (jax_devices env)) (gsi shape0 ax0)
             = Inr (host_to_dataset_shard cfg, num_shards cfg) \<and>
           convert_global_indices_to_local_indices (jax_local_devices env) (gsi shape0 ax0)
             = Inr (host_local_indices cfg, total_data_to_load cfg)"
proof -
  from assms obtain d2i where d2i: "tree_map2 gsi gs ax = Inr d2i"
    by (auto simp: setup_pipeline_def split: sum.splits)
  then have leaves: "tree_leaves d2i = map2 gsi (tree_leaves gs) (tree_leaves ax)"
    and len: "length (tree_leaves gs) = length (tree_leaves ax)"
    by (auto simp: tree_map2_def split: if_splits)
  from assms d2i obtain rep rest where rep: "tree_leaves d2i = rep # rest"
    and us: "get_unique_shards H (group_by_host [] (jax_devices env)) rep
               = Inr (host_to_dataset_shard cfg, num_shards cfg)"
    and cv: "convert_global_indices_to_local_indices (jax_local_devices env) rep
               = Inr (host_local_indices cfg, total_data_to_load cfg)"
    by (auto simp: setup_pipeline_def Let_def split: sum.splits list.splits prod.splits)
  from rep leaves len obtain shape0 shapes ax0 axs where
    "tree_leaves gs = shape0 # shapes" "tree_leaves ax = ax0 # axs"
    by (cases "tree_leaves gs"; cases "tree_leaves ax") auto
  with rep leaves us cv show ?thesis by auto
qed

section \<open>Properties of get\_per\_host\_data\_pipeline\<close>

lemma scenario_setup_sharded:
  "setup_pipeline (cpython_H 0) (scenario_env 0) scenario_shard_indices
     [Pytree ''inputs'' [0 :: nat]] (Pytree ''inputs'' [[8, 16]]) (Pytree ''inputs'' [True])
   = Inr \<lparr>host_to_dataset_shard = [(0, 0), (1, 1)], num_shards = 2,
          host_local_indices =
            [(Device 0 0, Slice (Some 0) (Some 2)), (Device 1 0, Slice (Some 2) (Some 4))],
          total_data_to_load = 4\<rparr>"
  by code_simp

lemma check_inputs_ignores_example:
  "check_inputs (x # xs) gs ax = Inr (p, b) \<Longrightarrow>
   \<exists>p'. check_inputs (x' # xs') gs ax = Inr (p', b)"
  by (auto simp: check_inputs_def Let_def split: sum.splits if_splits list.splits)

lemma check_inputs_batch_mismatch:
  assumes "batch_dims_of (tree_leaves gs) = Inr bs" and "b \<in> set bs" and "b \<noteq> bs ! 0"
  shows "check_inputs (x # xs) gs ax = Inl AssertionError"
proof -
  from assms(2,3) have "\<not> list_all (\<lambda>b. b = bs ! 0) bs"
    by (auto simp: list_all_iff)
  with assms(1) show ?thesis
    by (simp add: check_inputs_def Let_def)
qed

text \<open>
  Claim C6 fails on the code for a mismatch of tree structure. The elements of the
  dataset have the two leaves \<open>inputs\<close> and \<open>targets\<close>, the global shape and the
  partition spec have the single leaf \<open>inputs\<close>: \<open>check_inputs\<close> prints its message
  and returns the batch dimension, construction goes on and returns the generator, and the
  mismatch surfaces as a ValueError of \<open>tree_map\<close> when the first element is pulled.
\<close>

theorem get_per_host_data_pipeline_structure_mismatch:
  "check_inputs [Pytree ''inputs,targets'' [0 :: nat, 0]]
     (Pytree ''inputs'' [[8, 16]]) (Pytree ''inputs'' [True]) = Inr (True, 8) \<and>
   (case get_per_host_data_pipeline (cpython_H 0) (scenario_env 0) scenario_shard_indices
           [Pytree ''inputs,targets'' [0 :: nat, 0]]
           (Pytree ''inputs'' [[8, 16]]) (Pytree ''inputs'' [True]) None of
      Inl e \<Rightarrow> False
    | Inr generator \<Rightarrow> generator 0 = Some (Inl ValueError))"
  by code_simp








lemma setup_pipeline_host_keys:
  assumes "setup_pipeline H env get_shard_indices dataset global_data_shape data_axes
             = Inr cfg"
  shows "(\<forall>(h, ds)\<in>set (group_by_host [] (jax_devices env)). ds \<noteq> []) \<and>
         fst ` set (host_to_dataset_shard cfg) = host_id ` set (jax_devices env) \<and>
         (\<forall>h. h \<notin> host_id ` set (jax_devices env) \<longrightarrow>
              dict_get (host_to_dataset_shard cfg) h = None) \<and>
         num_shards cfg \<le> int (card (host_id ` set (jax_devices env)))"
proof -
  let ?hs = "group_by_host [] (jax_devices env)"
  have dist: "distinct (map fst ?hs)"
    by (rule distinct_group_by_host) simp
  from setup_pipeline_Inr [OF assms] obtain d2i where
    us: "get_unique_shards H ?hs d2i = Inr (host_to_dataset_shard cfg, num_shards cfg)"
    by blast
  from get_unique_shards_distinct_hosts [OF us dist] obtain ks where
    ks: "map (\<lambda>(h, ds). host_key H d2i ds) ?hs = map Inr ks"
    and n: "num_shards cfg = int (length (first_seen ks))"
    and h2s: "host_to_dataset_shard cfg
                = zip (map fst ?hs) (map (\<lambda>x. int (index_of (first_seen ks) x)) ks)"
    by blast
  from ks have len: "length ks = length ?hs" by (metis length_map)
  have "map fst (host_to_dataset_shard cfg) = map fst ?hs"
    using len by (simp add: h2s)
  then have "set (map fst (host_to_dataset_shard cfg)) = set (map fst ?hs)"
    by simp
  then have keys: "fst ` set (host_to_dataset_shard cfg) = host_id ` set (jax_devices env)"
    by (simp add: group_by_host_keys)
  have "card (set ks) \<le> length ks" by (rule card_length)
  also have "\<dots> = card (set (map fst ?hs))"
    using distinct_card [OF dist] len by simp
  also have "\<dots> = card (host_id ` set (jax_devices env))"
    by (simp add: group_by_host_keys)
  finally have count: "num_shards cfg \<le> int (card (host_id ` set (jax_devices env)))"
    by (simp add: n length_first_seen)
  have nonempty: "\<forall>(h, ds)\<in>set ?hs. ds \<noteq> []"
    using group_by_host_entry by blast
  have none: "\<forall>h. h \<notin> host_id ` set (jax_devices env) \<longrightarrow>
              dict_get (host_to_dataset_shard cfg) h = None"
    using keys by (simp add: dict_get_None_iff)
  from nonempty keys none count show ?thesis by blast
qed

text \<open>
  Claim C9, as amended. The pipeline groups the devices of \<open>jax.devices()\<close> by host,
  so its grouping has an entry only for a host with at least one device. A host without
  devices therefore has no entry in the grouping and none in the host-to-shard dictionary,
  and the shard count is at most the number of hosts that have devices.
\<close>

theorem setup_pipeline_hosts_without_devices:
  assumes "setup_pipeline H env get_shard_indices dataset global_data_shape data_axes
             = Inr cfg"
  shows "(\<forall>(h, ds)\<in>set (group_by_host [] (jax_devices env)). ds \<noteq> []) \<and>
         fst ` set (host_to_dataset_shard cfg) = host_id ` set (jax_devices env) \<and>
         (\<forall>h. h \<notin> host_id ` set (jax_devices env) \<longrightarrow>
              dict_get (host_to_dataset_shard cfg) h = None) \<and>
         num_shards cfg \<le> int (card (host_id ` set (jax_devices env)))"
  using setup_pipeline_host_keys [OF assms] .

theorem setup_pipeline_hosts_without_devices_witness:
  "fst ` set [(0 :: int, 0 :: int), (1, 1)] = host_id ` set (jax_devices (scenario_env 0)) \<and>
   dict_get [(0 :: int, 0 :: int), (1, 1)] 2 = None \<and>
   (2 :: int) \<le> int (card (host_id ` set (jax_devices (scenario_env 0))))"
  using setup_pipeline_hosts_without_devices [OF scenario_setup_sharded]
  by simp

text \<open>
  Claim C9 as stated fails for \<open>get_unique_shards\<close> itself: given a grouping that maps
  host 0 to an empty list of devices, it files host 0 under the hash of the empty tuple,
  assigns it shard 0 and counts two shards; host 1 gets shard 1, not the shard 0 it gets
  when host 0 is absent.
\<close>

theorem get_unique_shards_empty_host_counterexample:
  "get_unique_shards (cpython_H 0) [(0, []), (1, [0 :: int])]
     [(0, [Slice (Some 0) (Some 8), Slice (Some 0) (Some 16)])]
     = Inr ([(0, 0), (1, 1)], 2) \<and>
   get_unique_shards (cpython_H 0) [(1, [0 :: int])]
     [(0, [Slice (Some 0) (Some 8), Slice (Some 0) (Some 16)])]
     = Inr ([(1, 0)], 1)"
  by code_simp

lemma make_sharded_dataset_no_devices:
  assumes "setup_pipeline H env get_shard_indices dataset global_data_shape data_axes
             = Inr cfg"
    and "jax_process_index env \<notin> host_id ` set (jax_devices env)"
  shows "make_sharded_dataset cfg env dataset batching_fn = Inl KeyError"
proof -
  from setup_pipeline_host_keys [OF assms(1)] assms(2)
  have "dict_get (host_to_dataset_shard cfg) (jax_process_index env) = None"
    by blast
  then show ?thesis
    by (simp add: make_sharded_dataset_def dict_item_def)
qed

section \<open>Facts about slicing and unsharding\<close>

lemma length_place: "length (place g pos xs) = length g"
  by (induction xs arbitrary: g pos) auto

lemma place_nth:
  "p < length g \<Longrightarrow>
   place g pos xs ! p =
     (if pos \<le> p \<and> p < pos + length xs then Some (xs ! (p - pos)) else g ! p)"
proof (induction xs arbitrary: g pos)
  case Nil
  then show ?case by auto
next
  case (Cons x xs)
  from Cons.prems have "p < length (g[pos := Some x])" by simp
  from Cons.IH [OF this, of "Suc pos"] Cons.prems show ?case
    by (auto simp: nth_list_update nth_Cons' Suc_diff_le)
qed

lemma length_unshard: "length (unshard g d2i bufs) = length g"
  by (induction bufs arbitrary: g)
     (auto simp: length_place split: option.splits prod.splits)

lemma getitem_slice_within:
  assumes "0 \<le> off" and "0 \<le> sz" and "off + sz \<le> int (length xs)"
  shows "getitem_slice xs (Slice (Some off) (Some (off + sz))) = take (nat sz) (drop (nat off) xs)"
  using assms by (simp add: getitem_slice_def slice_bound_def Let_def min_def)

lemma form_buffers_char:
  assumes "\<forall>dev\<in>set devs. dict_get hli dev \<noteq> None"
  shows "form_buffers hli element devs =
           Inr (map (\<lambda>dev. (dev, getitem_slice element (the (dict_get hli dev)))) devs)"
  using assms by (induction devs) (auto simp: dict_item_def)

lemma unshard_hit:
  fixes val :: "int \<times> int \<Rightarrow> 'a list"
  assumes rng: "\<forall>d\<in>set ds. batch_range d2i d = Some (bounds_of (rg d))"
    and wf: "\<forall>d\<in>set ds. 0 \<le> fst (rg d) \<and> length (val (rg d)) = nat (snd (rg d) - fst (rg d))"
    and disj: "\<forall>d\<in>set ds. \<forall>d'\<in>set ds. rg d = rg d' \<or>
                 {fst (rg d)..<snd (rg d)} \<inter> {fst (rg d')..<snd (rg d')} = {}"
    and p: "p < length g"
    and d: "d \<in> set ds" and inr: "fst (rg d) \<le> int p" "int p < snd (rg d)"
  shows "unshard g d2i (map (\<lambda>d. (d, val (rg d))) ds) ! p
           = Some (val (rg d) ! (p - nat (fst (rg d))))"
  using assms
proof (induction ds arbitrary: g d)
  case Nil
  then show ?case by simp
next
  case (Cons x ds)
  let ?g' = "place g (nat (fst (rg x))) (val (rg x))"
  from Cons.prems(1) have bx: "batch_range d2i x = Some (Some (fst (rg x)), Some (snd (rg x)))"
    by (simp add: bounds_of_def)
  have step: "unshard g d2i (map (\<lambda>d. (d, val (rg d))) (x # ds))
                = unshard ?g' d2i (map (\<lambda>d. (d, val (rg d))) ds)"
    by (simp add: bx)
  have len': "p < length ?g'" using Cons.prems(4) by (simp add: length_place)
  show ?case
  proof (cases "d \<in> set ds")
    case True
    from Cons.prems(1,2,3) have
      "\<forall>d\<in>set ds. batch_range d2i d = Some (bounds_of (rg d))"
      "\<forall>d\<in>set ds. 0 \<le> fst (rg d) \<and> length (val (rg d)) = nat (snd (rg d) - fst (rg d))"
      "\<forall>d\<in>set ds. \<forall>d'\<in>set ds. rg d = rg d' \<or>
                 {fst (rg d)..<snd (rg d)} \<inter> {fst (rg d')..<snd (rg d')} = {}"
      by simp_all
    from Cons.IH [OF this len' True Cons.prems(6,7)] step show ?thesis by simp
  next
    case False
    with Cons.prems(5) have dx: "d = x" by simp
    have miss: "\<forall>d'\<in>set ds. \<not> (fst (rg d') \<le> int p \<and> int p < snd (rg d')) \<or> rg d' = rg x"
    proof
      fix d' assume d': "d' \<in> set ds"
      with Cons.prems(3) have "rg x = rg d' \<or>
          {fst (rg x)..<snd (rg x)} \<inter> {fst (rg d')..<snd (rg d')} = {}"
        by simp
      with Cons.prems(6,7) dx
      show "\<not> (fst (rg d') \<le> int p \<and> int p < snd (rg d')) \<or> rg d' = rg x"
        by auto
    qed
    show ?thesis
    proof (cases "\<exists>d'\<in>set ds. fst (rg d') \<le> int p \<and> int p < snd (rg d')")
      case True
      then obtain d' where d': "d' \<in> set ds" "fst (rg d') \<le> int p" "int p < snd (rg d')"
        by blast
      with miss have same: "rg d' = rg x" by blast
      from Cons.prems(1,2,3) have
        "\<forall>d\<in>set ds. batch_range d2i d = Some (bounds_of (rg d))"
        "\<forall>d\<in>set ds. 0 \<le> fst (rg d) \<and> length (val (rg d)) = nat (snd (rg d) - fst (rg d))"
        "\<forall>d\<in>set ds. \<forall>d'\<in>set ds. rg d = rg d' \<or>
                 {fst (rg d)..<snd (rg d)} \<inter> {fst (rg d')..<snd (rg d')} = {}"
        by simp_all
      from Cons.IH [OF this len' d'] step same dx show ?thesis by simp
    next
      case False
      have untouched: "unshard g' d2i (map (\<lambda>d. (d, val (rg d))) ds') ! p = g' ! p"
        if "\<forall>d'\<in>set ds'. \<not> (fst (rg d') \<le> int p \<and> int p < snd (rg d'))"
          "\<forall>d\<in>set ds'. batch_range d2i d = Some (bounds_of (rg d))"
          "\<forall>d\<in>set ds'. 0 \<le> fst (rg d) \<and> length (val (rg d)) = nat (snd (rg d) - fst (rg d))"
          "p < length g'" for g' ds'
        using that
      proof (induction ds' arbitrary: g')
        case Nil
        then show ?case by simp
      next
        case (Cons y ds')
        from Cons.prems(2) have bry: "batch_range d2i y = Some (Some (fst (rg y)), Some (snd (rg y)))"
          by (simp add: bounds_of_def)
        let ?h = "place g' (nat (fst (rg y))) (val (rg y))"
        from Cons.prems have "unshard ?h d2i (map (\<lambda>d. (d, val (rg d))) ds') ! p = ?h ! p"
          by (intro Cons.IH) (simp_all add: length_place)
        moreover from Cons.prems have "?h ! p = g' ! p"
          by (subst place_nth) auto
        ultimately show ?case by (simp add: bry)
      qed
      from Cons.prems(1,2) have
        "\<forall>d\<in>set ds. batch_range d2i d = Some (bounds_of (rg d))"
        "\<forall>d\<in>set ds. 0 \<le> fst (rg d) \<and> length (val (rg d)) = nat (snd (rg d) - fst (rg d))"
        by simp_all
      from untouched [OF _ this len'] False
      have "unshard ?g' d2i (map (\<lambda>d. (d, val (rg d))) ds) ! p = ?g' ! p"
        by blast
      also from Cons.prems(2,4,6,7) dx have "?g' ! p = Some (val (rg x) ! (p - nat (fst (rg x))))"
        by (subst place_nth) auto
      finally show ?thesis using step dx by simp
    qed
  qed
qed

lemma unshard_miss:
  fixes val :: "int \<times> int \<Rightarrow> 'a list"
  assumes "\<forall>d\<in>set ds. \<not> (fst (rg d) \<le> int p \<and> int p < snd (rg d))"
    and "\<forall>d\<in>set ds. batch_range d2i d = Some (bounds_of (rg d))"
    and "\<forall>d\<in>set ds. 0 \<le> fst (rg d) \<and> length (val (rg d)) = nat (snd (rg d) - fst (rg d))"
    and "p < length g"
  shows "unshard g d2i (map (\<lambda>d. (d, val (rg d))) ds) ! p = g ! p"
  using assms
proof (induction ds arbitrary: g)
  case Nil
  then show ?case by simp
next
  case (Cons y ds)
  from Cons.prems(2) have bry: "batch_range d2i y = Some (Some (fst (rg y)), Some (snd (rg y)))"
    by (simp add: bounds_of_def)
  let ?h = "place g (nat (fst (rg y))) (val (rg y))"
  from Cons.prems have "unshard ?h d2i (map (\<lambda>d. (d, val (rg d))) ds) ! p = ?h ! p"
    by (intro Cons.IH) (simp_all add: length_place)
  moreover from Cons.prems have "?h ! p = g ! p"
    by (subst place_nth) auto
  ultimately show ?case by (simp add: bry)
qed

lemma local_offset_bounds:
  assumes nn: "\<forall>r\<in>set rs. fst r \<le> snd r" and r: "r \<in> set rs"
  shows "0 \<le> local_offset rs r \<and>
         local_offset rs r + range_size r \<le> sum_list (map range_size (first_seen rs))"
proof -
  let ?D = "first_seen rs"
  let ?zs = "map range_size ?D"
  let ?k = "index_of ?D r"
  have nonneg: "\<forall>z\<in>set ?zs. 0 \<le> z"
    using nn by (auto simp: set_first_seen range_size_def)
  from r have mem: "r \<in> set ?D" by (simp add: set_first_seen)
  have off: "local_offset rs r = sum_list (take ?k ?zs)"
    by (simp add: local_offset_def take_map)
  have "0 \<le> sum_list (take ?k ?zs)"
    using sum_take_mono [OF nonneg, of 0 ?k] by simp
  moreover have "sum_list (take (Suc ?k) ?zs) = sum_list (take ?k ?zs) + range_size r"
    using index_of_less [OF mem] nth_index_of [OF mem]
    by (simp add: take_Suc_conv_app_nth)
  moreover have "sum_list (take (Suc ?k) ?zs) \<le> sum_list (take (length ?zs) ?zs)"
    using index_of_less [OF mem] by (intro sum_take_mono [OF nonneg]) simp
  ultimately show ?thesis by (simp add: off)
qed

lemma contiguous_starts:
  assumes cont: "\<forall>k. Suc k < length D \<longrightarrow> fst (D ! Suc k) = snd (D ! k)"
    and k: "k < length D"
  shows "fst (D ! k) = fst (D ! 0) + sum_list (take k (map range_size D))"
  using k
proof (induction k)
  case 0
  then show ?case by simp
next
  case (Suc k)
  then have "fst (D ! k) = fst (D ! 0) + sum_list (take k (map range_size D))" by simp
  moreover from cont Suc.prems have "fst (D ! Suc k) = snd (D ! k)" by simp
  moreover from Suc.prems have "sum_list (take (Suc k) (map range_size D))
      = sum_list (take k (map range_size D)) + range_size (D ! k)"
    by (simp add: take_Suc_conv_app_nth)
  moreover have "range_size (D ! k) = snd (D ! k) - fst (D ! k)"
    by (simp add: range_size_def)
  ultimately show ?case by linarith
qed

lemma map_bounds_inj:
  "map (\<lambda>r. Some (bounds_of r)) rs = map (\<lambda>r. Some (bounds_of r)) rs' \<Longrightarrow> rs = rs'"
proof (induction rs arbitrary: rs')
  case Nil
  then show ?case by simp
next
  case (Cons r rs)
  then show ?case by (cases rs') (auto simp: bounds_of_inj)
qed

section \<open>Properties of the device buffers\<close>

text \<open>
  Claim C5, as amended. Take a host whose devices' batch ranges lie inside the global
  batch, have \<open>start \<le> stop\<close> and are pairwise equal or disjoint, and a local batch
  with as many rows as the local layout needs. Cutting the local batch at the local slices
  and placing each buffer back at its device's global range puts, at the global positions
  of every device's range, exactly the rows of that device's local slice, in their order:
  no row of the local batch is lost or altered. If moreover the distinct ranges are first
  seen in ascending order, each starting where the one before stops, the rows placed from
  the start of the first range on are the local batch itself, row for row.
\<close>

theorem unshard_device_buffers:
  assumes conv: "convert_global_indices_to_local_indices (jax_local_devices env)
                   device_to_index = Inr (local_idx, tot)"
    and rs: "map (batch_range device_to_index) (jax_local_devices env)
               = map (\<lambda>r. Some (bounds_of r)) rs"
    and wf: "\<forall>r\<in>set rs. 0 \<le> fst r \<and> fst r \<le> snd r \<and> snd r \<le> int batch_size"
    and disj: "\<forall>r\<in>set rs. \<forall>r'\<in>set rs.
                 r = r' \<or> {fst r..<snd r} \<inter> {fst r'..<snd r'} = {}"
    and len: "int (length element) = tot"
  shows "\<exists>buffers.
     form_gda env local_idx element shape axes = Inr (GlobalArray shape axes buffers) \<and>
     (\<forall>i<length rs. \<forall>j<nat (range_size (rs ! i)).
        unshard (replicate batch_size None) device_to_index buffers ! (nat (fst (rs ! i)) + j)
          = Some (element ! (nat (local_offset rs (rs ! i)) + j))) \<and>
     ((\<forall>k. Suc k < length (first_seen rs) \<longrightarrow>
            fst (first_seen rs ! Suc k) = snd (first_seen rs ! k)) \<longrightarrow>
        (\<forall>p<length element.
           unshard (replicate batch_size None) device_to_index buffers
             ! (nat (fst (first_seen rs ! 0)) + p) = Some (element ! p)))"
proof -
  let ?devs = "jax_local_devices env"
  let ?D = "first_seen rs"
  let ?zs = "map range_size ?D"
  let ?g = "replicate batch_size (None :: 'a option)"
  from convert_char [OF conv] obtain rs' where
    rs': "map (batch_range device_to_index) ?devs = map (\<lambda>r. Some (bounds_of r)) rs'"
    and tot': "tot = sum_list (map range_size (first_seen rs'))"
    and get': "\<forall>i<length ?devs. dict_get local_idx (?devs ! i) = Some (local_slice rs' (rs' ! i))"
    by blast
  from rs rs' have "rs' = rs" by (simp add: map_bounds_inj)
  with tot' get' have tot: "tot = sum_list ?zs"
    and get: "\<forall>i<length ?devs. dict_get local_idx (?devs ! i) = Some (local_slice rs (rs ! i))"
    by simp_all
  from rs have len_rs: "length rs = length ?devs" by (metis length_map)
  have nn: "\<forall>r\<in>set rs. fst r \<le> snd r" using wf by blast
  define rg where "rg d = (the (fst (the (batch_range device_to_index d))),
                           the (snd (the (batch_range device_to_index d))))" for d
  define val where "val r = getitem_slice element (local_slice rs r)" for r
  have rg_i: "rg (?devs ! i) = rs ! i" if "i < length ?devs" for i
  proof -
    from rs that len_rs have "batch_range device_to_index (?devs ! i) = Some (bounds_of (rs ! i))"
      by (metis (no_types, lifting) nth_map)
    then show ?thesis by (simp add: rg_def bounds_of_def)
  qed
  have rg_mem: "rg d \<in> set rs \<and> batch_range device_to_index d = Some (bounds_of (rg d)) \<and>
                dict_get local_idx d = Some (local_slice rs (rg d))" if "d \<in> set ?devs" for d
  proof -
    from that obtain i where i: "i < length ?devs" "d = ?devs ! i"
      by (metis in_set_conv_nth)
    from rs i len_rs have "batch_range device_to_index d = Some (bounds_of (rs ! i))"
      by (metis (no_types, lifting) nth_map)
    with i rg_i [OF i(1)] get len_rs show ?thesis by simp
  qed
  have val_eq: "val r = take (nat (range_size r)) (drop (nat (local_offset rs r)) element)"
    and val_len: "length (val r) = nat (snd r - fst r)" if "r \<in> set rs" for r
  proof -
    from local_offset_bounds [OF nn that] len tot
    have b: "0 \<le> local_offset rs r" "local_offset rs r + range_size r \<le> int (length element)"
      by simp_all
    from nn that have sz: "0 \<le> range_size r" by (simp add: range_size_def)
    from getitem_slice_within [OF b(1) sz b(2)]
    show v: "val r = take (nat (range_size r)) (drop (nat (local_offset rs r)) element)"
      by (simp add: val_def local_slice_def)
    from b sz show "length (val r) = nat (snd r - fst r)"
      unfolding v by (simp add: range_size_def)
  qed
  have bufs: "form_buffers local_idx element ?devs = Inr (map (\<lambda>d. (d, val (rg d))) ?devs)"
  proof -
    have "\<forall>dev\<in>set ?devs. dict_get local_idx dev \<noteq> None"
      using rg_mem by simp
    from form_buffers_char [OF this, of element]
    have "form_buffers local_idx element ?devs
        = Inr (map (\<lambda>dev. (dev, getitem_slice element (the (dict_get local_idx dev)))) ?devs)" .
    also have "map (\<lambda>dev. (dev, getitem_slice element (the (dict_get local_idx dev)))) ?devs
        = map (\<lambda>d. (d, val (rg d))) ?devs"
      using rg_mem by (simp add: val_def)
    finally show ?thesis .
  qed
  let ?bufs = "map (\<lambda>d. (d, val (rg d))) ?devs"
  have h_rng: "\<forall>d\<in>set ?devs. batch_range device_to_index d = Some (bounds_of (rg d))"
    using rg_mem by simp
  have h_wf: "\<forall>d\<in>set ?devs. 0 \<le> fst (rg d) \<and>
                length (val (rg d)) = nat (snd (rg d) - fst (rg d))"
    using rg_mem wf val_len by simp
  have h_disj: "\<forall>d\<in>set ?devs. \<forall>d'\<in>set ?devs. rg d = rg d' \<or>
                 {fst (rg d)..<snd (rg d)} \<inter> {fst (rg d')..<snd (rg d')} = {}"
    using rg_mem disj by simp
  have rows: "unshard ?g device_to_index ?bufs ! (nat (fst (rs ! i)) + j)
          = Some (element ! (nat (local_offset rs (rs ! i)) + j))"
    if i: "i < length rs" and j: "j < nat (range_size (rs ! i))" for i j
  proof -
    let ?r = "rs ! i"
    let ?p = "nat (fst ?r) + j"
    from i have r: "?r \<in> set rs" by simp
    from i len_rs have d: "?devs ! i \<in> set ?devs" and rgd: "rg (?devs ! i) = ?r"
      using rg_i by simp_all
    from wf r have w: "0 \<le> fst ?r" "fst ?r \<le> snd ?r" "snd ?r \<le> int batch_size" by simp_all
    from j w have p_in: "fst ?r \<le> int ?p" "int ?p < snd ?r"
      by (simp_all add: range_size_def)
    with w have p_len: "?p < length ?g" by simp
    from unshard_hit [of ?devs device_to_index rg val ?p ?g "?devs ! i",
        OF h_rng h_wf h_disj p_len d] p_in rgd
    have "unshard ?g device_to_index ?bufs ! ?p = Some (val ?r ! (?p - nat (fst ?r)))"
      by simp
    moreover have "val ?r ! j = element ! (nat (local_offset rs ?r) + j)"
    proof -
      from local_offset_bounds [OF nn r]
      have b1: "0 \<le> local_offset rs ?r"
        and b2: "local_offset rs ?r + range_size ?r \<le> sum_list ?zs"
        by simp_all
      from nn r have sz: "0 \<le> range_size ?r" by (simp add: range_size_def)
      from b1 b2 sz len tot
      have "nat (local_offset rs ?r) + nat (range_size ?r) \<le> length element"
        by linarith
      with j show ?thesis by (simp add: val_eq [OF r])
    qed
    ultimately show ?thesis by simp
  qed
  have ordered: "unshard ?g device_to_index ?bufs ! (nat (fst (?D ! 0)) + p)
                   = Some (element ! p)"
    if cont: "\<forall>k. Suc k < length ?D \<longrightarrow> fst (?D ! Suc k) = snd (?D ! k)"
      and p: "p < length element" for p
  proof -
    have nonneg: "\<forall>z\<in>set ?zs. 0 \<le> z"
      using nn by (auto simp: set_first_seen range_size_def)
    from p len tot have "int p \<in> {0 ..< sum_list ?zs}" by simp
    then have "int p \<in> (\<Union>k<length ?zs.
                 {sum_list (take k ?zs) ..< sum_list (take (Suc k) ?zs)})"
      by (simp only: prefix_intervals_cover [OF nonneg])
    then obtain k where k: "k < length ?zs"
      and mem: "int p \<in> {sum_list (take k ?zs) ..< sum_list (take (Suc k) ?zs)}"
      by blast
    from mem have lo: "sum_list (take k ?zs) \<le> int p"
      and hi: "int p < sum_list (take (Suc k) ?zs)"
      by simp_all
    from k have kD: "k < length ?D" by simp
    then have rD: "?D ! k \<in> set rs" using nth_mem [OF kD] by (simp add: set_first_seen)
    then obtain i where i: "i < length rs" "rs ! i = ?D ! k"
      by (metis in_set_conv_nth)
    have off: "local_offset rs (?D ! k) = sum_list (take k ?zs)"
      using index_of_nth_distinct [OF distinct_first_seen kD]
      by (simp add: local_offset_def take_map)
    have next_sum: "sum_list (take (Suc k) ?zs) = sum_list (take k ?zs) + range_size (?D ! k)"
      using kD by (simp add: take_Suc_conv_app_nth)
    have start_k: "fst (?D ! k) = fst (?D ! 0) + sum_list (take k ?zs)"
      by (rule contiguous_starts [OF cont kD])
    have "0 < length ?D" using kD by (cases ?D) simp_all
    then have "?D ! 0 \<in> set rs" using nth_mem [of 0 ?D] by (simp add: set_first_seen)
    with wf have s0: "0 \<le> fst (?D ! 0)" by simp
    have pre0: "0 \<le> sum_list (take k ?zs)"
      using sum_take_mono [OF nonneg, of 0 k] by simp
    define j where "j = p - nat (sum_list (take k ?zs))"
    from lo hi next_sum pre0 have j: "j < nat (range_size (?D ! k))"
      and pj: "p = nat (sum_list (take k ?zs)) + j"
      unfolding j_def by linarith+
    from rows [OF i(1)] i(2) j
    have "unshard ?g device_to_index ?bufs ! (nat (fst (?D ! k)) + j)
            = Some (element ! (nat (local_offset rs (?D ! k)) + j))"
      by simp
    moreover from start_k s0 pre0 pj
    have "nat (fst (?D ! k)) + j = nat (fst (?D ! 0)) + p" by linarith
    moreover from off pj have "nat (local_offset rs (?D ! k)) + j = p" by simp
    ultimately show ?thesis by simp
  qed
  have gda: "form_gda env local_idx element shape axes = Inr (GlobalArray shape axes ?bufs)"
    by (simp add: form_gda_def bufs)
  show ?thesis
    apply (rule exI [of _ ?bufs])
    apply (intro conjI allI impI)
      apply (rule gda)
     apply (erule (1) rows)
    apply (erule (1) ordered)
    done
qed

theorem unshard_device_buffers_witness:
  "\<exists>buffers.
     form_gda \<lparr>jax_devices = [Device 2 1, Device 3 1],
               jax_local_devices = [Device 2 1, Device 3 1], jax_process_index = 1\<rparr>
       [(Device 2 1, Slice (Some 0) (Some 2)), (Device 3 1, Slice (Some 2) (Some 4))]
       [10, 11, 12, 13 :: int] [8, 16] True
       = Inr (GlobalArray [8, 16] True buffers) \<and>
     unshard (replicate 8 None)
       [(Device 2 1, [Slice (Some 4) (Some 6), Slice None None]),
        (Device 3 1, [Slice (Some 6) (Some 8), Slice None None])] buffers ! 7 = Some 13"
proof -
  let ?env = "\<lparr>jax_devices = [Device 2 1, Device 3 1],
               jax_local_devices = [Device 2 1, Device 3 1], jax_process_index = 1\<rparr>"
  let ?d2i = "[(Device 2 1, [Slice (Some 4) (Some 6), Slice None None]),
        (Device 3 1, [Slice (Some 6) (Some 8), Slice None None])]"
  let ?d2l = "[(Device 2 1, Slice (Some 0) (Some 2)), (Device 3 1, Slice (Some 2) (Some 4))]"
  let ?rs = "[(4 :: int, 6 :: int), (6, 8)]"
  let ?el = "[10, 11, 12, 13 :: int]"
  have conv: "convert_global_indices_to_local_indices (jax_local_devices ?env) ?d2i
                = Inr (?d2l, 4)"
    by code_simp
  have rs: "map (batch_range ?d2i) (jax_local_devices ?env)
              = map (\<lambda>r. Some (bounds_of r)) ?rs"
    by (simp add: batch_range_def bounds_of_def)
  have wf: "\<forall>r\<in>set ?rs. 0 \<le> fst r \<and> fst r \<le> snd r \<and> snd r \<le> int 8"
    by simp
  have disj: "\<forall>r\<in>set ?rs. \<forall>r'\<in>set ?rs.
                 r = r' \<or> {fst r..<snd r} \<inter> {fst r'..<snd r'} = {}"
    by simp
  have len: "int (length ?el) = 4" by simp
  have fs: "first_seen ?rs = ?rs" by (simp add: first_seen_def)
  have cont: "\<forall>k. Suc k < length (first_seen ?rs) \<longrightarrow>
            fst (first_seen ?rs ! Suc k) = snd (first_seen ?rs ! k)"
    unfolding fs by simp
  from unshard_device_buffers [OF conv rs wf disj len, of "[8, 16]" True]
  obtain buffers where
    gda: "form_gda ?env ?d2l ?el [8, 16] True = Inr (GlobalArray [8, 16] True buffers)"
    and ordered: "(\<forall>k. Suc k < length (first_seen ?rs) \<longrightarrow>
            fst (first_seen ?rs ! Suc k) = snd (first_seen ?rs ! k)) \<longrightarrow>
        (\<forall>p<length ?el.
           unshard (replicate 8 None) ?d2i buffers
             ! (nat (fst (first_seen ?rs ! 0)) + p) = Some (?el ! p))"
    by (elim exE conjE) (rule that)
  from ordered [THEN mp, OF cont, THEN spec, of 3]
  have "unshard (replicate 8 None) ?d2i buffers ! 7 = Some 13"
    by (simp add: fs)
  with gda show ?thesis by blast
qed

text \<open>
  Claim C5 as stated fails: a host lists the device that owns rows \<open>[2, 4)\<close> before
  the device that owns rows \<open>[0, 2)\<close>. The first two rows of the local batch go to the
  first device listed and are placed at global rows 2 and 3, the last two rows at global
  rows 0 and 1: the assembled batch is the local batch with its two halves exchanged.
\<close>

theorem unshard_device_order_counterexample:
  "convert_global_indices_to_local_indices [Device 1 0, Device 0 0]
     [(Device 0 0, [Slice (Some 0) (Some 2)]), (Device 1 0, [Slice (Some 2) (Some 4)])]
     = Inr ([(Device 1 0, Slice (Some 0) (Some 2)), (Device 0 0, Slice (Some 2) (Some 4))], 4) \<and>
   form_gda \<lparr>jax_devices = [Device 0 0, Device 1 0],
             jax_local_devices = [Device 1 0, Device 0 0], jax_process_index = 0\<rparr>
     [(Device 1 0, Slice (Some 0) (Some 2)), (Device 0 0, Slice (Some 2) (Some 4))]
     [10, 11, 12, 13 :: int] [4] ()
     = Inr (GlobalArray [4] () [(Device 1 0, [10, 11]), (Device 0 0, [12, 13])]) \<and>
   unshard (replicate 4 None)
     [(Device 0 0, [Slice (Some 0) (Some 2)]), (Device 1 0, [Slice (Some 2) (Some 4)])]
     [(Device 1 0, [10, 11]), (Device 0 0, [12, 13 :: int])]
     = [Some 12, Some 13, Some 10, Some 11]"
  by code_simp

section \<open>Properties of the configuration object\<close>

text \<open>
  Claim C10. Once the configuration has been loaded, assigning any value to any attribute
  of the configuration object raises ValueError and leaves the stored keys as they were,
  and reading an attribute that is not one of the loaded keys raises ValueError.
\<close>

theorem HyperParameters_read_only:
  "HyperParameters_setattr st attr val = (Inl ValueError, st) \<and>
   (config_keys st = Some keys \<longrightarrow> attr \<notin> fst ` set keys \<longrightarrow>
      HyperParameters_getattr st attr = Inl ValueError)"
proof -
  have "dict_get keys attr = None" if "attr \<notin> fst ` set keys"
    using that by (induction keys) auto
  then show ?thesis
    by (simp add: HyperParameters_setattr_def HyperParameters_getattr_def)
qed

theorem HyperParameters_read_only_witness:
  "HyperParameters_setattr \<lparr>config_keys = Some [(''steps'', 10::int)]\<rparr> ''steps'' 20
     = (Inl ValueError, \<lparr>config_keys = Some [(''steps'', 10)]\<rparr>) \<and>
   HyperParameters_getattr \<lparr>config_keys = Some [(''steps'', 10::int)]\<rparr> ''scale''
     = Inl ValueError \<and>
   HyperParameters_getattr \<lparr>config_keys = Some [(''steps'', 10::int)]\<rparr> ''steps''
     = Inr 10"
  using HyperParameters_read_only
    [of "\<lparr>config_keys = Some [(''steps'', 10::int)]\<rparr>" "''steps''" 20
        "[(''steps'', 10)]" ]
    HyperParameters_read_only
    [of "\<lparr>config_keys = Some [(''steps'', 10::int)]\<rparr>" "''scale''" 20
        "[(''steps'', 10)]" ]
  by (simp add: HyperParameters_getattr_def dict_item_def)

end
